theory Spec2Isabelle
  imports Main "HOL-Library.Sublist"
begin

section \<open>Data model of \<^verbatim>\<open>dashboard/lib/scraper-service.ts\<close>\<close>

text \<open>
  The service is a single-threaded, event-driven program: every \<^verbatim>\<open>async\<close> method runs
  until its next \<^verbatim>\<open>await\<close>, is suspended there, and is resumed when the awaited promise
  settles. The embedding keeps each stretch of code between two suspension points as one
  function on an explicit state, the suspended calls as continuations in that state, and
  what the environment does (API calls, the database answering, a child process writing or
  closing, the cron timer firing) as events. A database call takes effect at the moment it
  is fulfilled. \<^verbatim>\<open>initScheduler\<close> and \<^verbatim>\<open>getSchedulerConfig\<close> are left out, and so are the
  console, the working directory and the environment of the children.
\<close>

datatype ScraperStatus =
  RUNNING | COMPLETED | FAILED | AUTH_REQUIRED | ENRICHING | PROCESSING
  | ENRICHMENT_FAILED | PROCESSING_FAILED

datatype TriggerType = MANUAL | SCHEDULED

text \<open>\<^verbatim>\<open>PipelineStep\<close>; the last two values are prefixed, \<^verbatim>\<open>ScraperStatus\<close> has the same names.\<close>

datatype PipelineStep = IDLE | SCRAPING | Step_ENRICHING | Step_PROCESSING

text \<open>Both types are unions of string literals: the value is its own text.\<close>

fun status_string :: "ScraperStatus \<Rightarrow> string" where
  "status_string RUNNING = ''RUNNING''"
| "status_string COMPLETED = ''COMPLETED''"
| "status_string FAILED = ''FAILED''"
| "status_string AUTH_REQUIRED = ''AUTH_REQUIRED''"
| "status_string ENRICHING = ''ENRICHING''"
| "status_string PROCESSING = ''PROCESSING''"
| "status_string ENRICHMENT_FAILED = ''ENRICHMENT_FAILED''"
| "status_string PROCESSING_FAILED = ''PROCESSING_FAILED''"

fun step_string :: "PipelineStep \<Rightarrow> string" where
  "step_string IDLE = ''IDLE''"
| "step_string SCRAPING = ''SCRAPING''"
| "step_string Step_ENRICHING = ''ENRICHING''"
| "step_string Step_PROCESSING = ''PROCESSING''"

datatype OutputType = Stdout | Stderr | Status | Complete

record ScraperOutput =
  type :: OutputType
  data :: string
  timestamp :: nat

text \<open>A thrown JavaScript value: an \<^verbatim>\<open>Error\<close> with its message, or any other value.\<close>

datatype thrown = Error string | NonError

text \<open>
  A subscriber callback is foreign code. It is a function object, compared by reference
  (\<open>cb_id\<close>) in the \<^verbatim>\<open>Set\<close> of listeners; called with an event it returns or throws
  (\<open>cb_throws\<close>). It does not call back into the service.
\<close>

record OutputCallback =
  cb_id :: nat
  cb_throws :: "ScraperOutput \<Rightarrow> thrown option"

text \<open>The object returned by \<^verbatim>\<open>cron.schedule\<close>: its expression, and whether \<^verbatim>\<open>stop()\<close> was called.\<close>

record ScheduledTask =
  task_expr :: string
  task_stopped :: bool

text \<open>
  A JavaScript number as \<^verbatim>\<open>parseInt\<close> returns it for a string of digits: a double whose
  value is a natural number, or \<^verbatim>\<open>Infinity\<close>.
\<close>

datatype number = Finite nat | Infinity

text \<open>
  The two tables behind \<^verbatim>\<open>prisma\<close>. Their schema is not part of the sources; the fields are
  the ones the service writes, a fresh row having no completion time, no output, no error
  message and both counters 0. A row keeps the numbers it is sent: what the column type does
  with a number out of its range is not part of the sources either.
\<close>

record ScraperRun =
  run_id :: int
  status :: ScraperStatus
  triggerType :: TriggerType
  completedAt :: "nat option"
  run_output :: "string option"
  errorMessage :: "string option"
  sellersProcessed :: number
  productsScraped :: number

record SchedulerConfig =
  cfg_id :: int
  enabled :: bool
  cronExpr :: string

text \<open>The \<^verbatim>\<open>data\<close> object of the last update of a run, built before the update is awaited.\<close>

record FinalData =
  d_status :: ScraperStatus
  d_completedAt :: nat
  d_output :: string
  d_errorMessage :: "string option"
  d_sellersProcessed :: number
  d_productsScraped :: number

datatype Stage = Scrape | Enrich | Process

text \<open>
  The suspension points. \<open>K_create\<close>: \<^verbatim>\<open>startScraper\<close> awaiting \<^verbatim>\<open>scraperRun.create\<close>.
  \<open>K_command\<close>: \<^verbatim>\<open>runFullPipeline\<close> awaiting \<^verbatim>\<open>runCommand\<close> of a stage, with the run id and the
  \<^verbatim>\<open>commandOutput\<close> array of that call. \<open>K_update_enriching\<close>, \<open>K_update_processing\<close>: awaiting
  the status update before stage 2, stage 3. \<open>K_final\<close>: the \<^verbatim>\<open>finally\<close> block awaiting the last
  update. \<open>K_upsert\<close>: \<^verbatim>\<open>updateSchedulerConfig\<close> awaiting \<^verbatim>\<open>schedulerConfig.upsert\<close>.
\<close>

datatype cont =
  K_create TriggerType
  | K_command Stage int "string list"
  | K_update_enriching int
  | K_update_processing int
  | K_final int FinalData
  | K_upsert bool string

text \<open>
  The fields of \<^verbatim>\<open>class ScraperService\<close>, then the world around the one instance: the tables,
  the suspended calls by task number, and what has been done to the outside: the commands
  spawned (with the task that spawned them), the events handed to \<^verbatim>\<open>broadcast\<close>, the callback
  invocations, and the clock read by \<^verbatim>\<open>new Date()\<close>.
\<close>

record ScraperService =
  currentRunId :: "int option"
  outputBuffer :: "string list"
  listeners :: "OutputCallback list"
  scheduledTask :: "ScheduledTask option"
  pipelineStep :: PipelineStep
  abortRequested :: bool

record world = ScraperService +
  runs :: "int \<rightharpoonup> ScraperRun"
  nextRunId :: int
  schedulerConfig :: "SchedulerConfig option"
  tasks :: "nat \<rightharpoonup> cont"
  nextTid :: nat
  spawned :: "(nat \<times> string \<times> string list) list"
  published :: "ScraperOutput list"
  delivered :: "(nat \<times> ScraperOutput) list"
  now :: nat

text \<open>What an event gives back to whoever caused it.\<close>

datatype outcome =
  Done
  | Suspended nat
  | StartResult int "string option"
  | StopResult bool
  | Uncaught thrown

section \<open>Text helpers\<close>

definition nl :: string where
  "nl = [CHR 0x0A]"

text \<open>\<^verbatim>\<open>`\n${'='.repeat(50)}\n...\n${'='.repeat(50)}\n`\<close>\<close>

definition banner :: "string \<Rightarrow> string" where
  "banner s = nl @ replicate 50 (CHR ''='') @ nl @ s @ nl @ replicate 50 (CHR ''='') @ nl"

text \<open>A number inside a template literal: its decimal digits.\<close>

function show_nat :: "nat \<Rightarrow> string" where
  "show_nat n =
     (if n < 10 then [char_of (48 + n)]
      else show_nat (n div 10) @ [char_of (48 + n mod 10)])"
  by pat_completeness auto
termination
  by (relation "measure (\<lambda>n. n)") auto

declare show_nat.simps [simp del]

definition show_int :: "int \<Rightarrow> string" where
  "show_int i = (if i < 0 then ''-'' @ show_nat (nat (- i)) else show_nat (nat i))"

text \<open>\<^verbatim>\<open>String.prototype.includes\<close>\<close>

fun str_includes :: "string \<Rightarrow> string \<Rightarrow> bool" where
  "str_includes [] sub = (sub = [])"
| "str_includes (c # cs) sub = (prefix sub (c # cs) \<or> str_includes cs sub)"

text \<open>
  \<^verbatim>\<open>String.prototype.match\<close> for the two patterns of the service, \<^verbatim>\<open>/(\d+) seller\(s\)/\<close> and
  \<^verbatim>\<open>/Saved (\d+) products/\<close>: a literal, one or more ASCII digits, a literal. \<open>regex_at\<close> tries
  the pattern at the start of the text; \<^verbatim>\<open>\d+\<close> is greedy and giving digits back never helps,
  the literal after it starts with a space. \<open>regex_match\<close> tries every start position from
  the left and returns the captured group of the first match, as \<^verbatim>\<open>match\<close> without the
  \<^verbatim>\<open>g\<close> flag does.
\<close>

definition is_digit :: "char \<Rightarrow> bool" where
  "is_digit c = (c \<in> set ''0123456789'')"

definition regex_at :: "string \<Rightarrow> string \<Rightarrow> string \<Rightarrow> string option" where
  "regex_at pre post s =
     (if prefix pre s then
        (let t = drop (length pre) s; ds = takeWhile is_digit t
         in if ds \<noteq> [] \<and> prefix post (dropWhile is_digit t) then Some ds else None)
      else None)"

fun regex_match :: "string \<Rightarrow> string \<Rightarrow> string \<Rightarrow> string option" where
  "regex_match pre post [] = regex_at pre post []"
| "regex_match pre post (c # cs) =
     (case regex_at pre post (c # cs) of
        Some g \<Rightarrow> Some g
      | None \<Rightarrow> regex_match pre post cs)"

text \<open>
  \<^verbatim>\<open>parseInt\<close> on a string of decimal digits, as the groups captured above are.
  \<open>digits_value\<close> is the integer the digits represent. The result is that integer as a
  Number: \<open>to_double\<close> rounds it to the nearest double, a tie going to the even
  significand (53 bits), and to \<^verbatim>\<open>Infinity\<close> when the rounded value reaches \<open>2 ^ 1024\<close>.
  Below \<open>2 ^ 53\<close> nothing is rounded. (ECMAScript allows an implementation to replace the
  digits after the 20th by 0 before it rounds; V8, which runs the service, rounds the exact
  value.)
\<close>

definition digit_val :: "char \<Rightarrow> nat" where
  "digit_val c = of_char c - 48"

definition digits_value :: "string \<Rightarrow> nat" where
  "digits_value ds = foldl (\<lambda>n c. 10 * n + digit_val c) 0 ds"

function bit_length :: "nat \<Rightarrow> nat" where
  "bit_length n = (if n = 0 then 0 else Suc (bit_length (n div 2)))"
  by pat_completeness auto
termination
  by (relation "measure (\<lambda>n. n)") auto

declare bit_length.simps [simp del]

definition to_double :: "nat \<Rightarrow> number" where
  "to_double m =
     (if m < 2 ^ 53 then Finite m
      else
        (let e = bit_length m - 53;
             q = m div 2 ^ e;
             r = m mod 2 ^ e;
             rounded = (if 2 * r < 2 ^ e \<or> (2 * r = 2 ^ e \<and> even q)
                        then q * 2 ^ e else (q + 1) * 2 ^ e)
         in if rounded < 2 ^ 1024 then Finite rounded else Infinity))"

definition parseInt :: "string \<Rightarrow> number" where
  "parseInt ds = to_double (digits_value ds)"

section \<open>The service\<close>

definition isRunning :: "world \<Rightarrow> bool" where
  "isRunning w = (pipelineStep w \<noteq> IDLE)"

definition getCurrentStep :: "world \<Rightarrow> PipelineStep" where
  "getCurrentStep w = pipelineStep w"


text \<open>
  \<^verbatim>\<open>subscribe\<close> adds to a \<^verbatim>\<open>Set\<close>, which keeps insertion order and ignores an element it
  already has; the function it returns deletes the callback again.
\<close>

definition subscribe :: "OutputCallback \<Rightarrow> world \<Rightarrow> world" where
  "subscribe callback w =
     (if cb_id callback \<in> cb_id ` set (listeners w) then w
      else w\<lparr>listeners := listeners w @ [callback]\<rparr>)"

definition unsubscribe :: "nat \<Rightarrow> world \<Rightarrow> world" where
  "unsubscribe r w = w\<lparr>listeners := filter (\<lambda>cb. cb_id cb \<noteq> r) (listeners w)\<rparr>"

text \<open>
  \<^verbatim>\<open>this.listeners.forEach((cb) => cb(output))\<close>: the callbacks are called in order; the first
  one that throws ends the loop, and what it threw leaves \<^verbatim>\<open>forEach\<close>. \<open>deliver\<close> returns
  what was thrown, if anything, and the calls made.
\<close>

fun deliver :: "OutputCallback list \<Rightarrow> ScraperOutput \<Rightarrow> thrown option \<times> (nat \<times> ScraperOutput) list" where
  "deliver [] out = (None, [])"
| "deliver (cb # cbs) out =
     (case cb_throws cb out of
        Some e \<Rightarrow> (Some e, [(cb_id cb, out)])
      | None \<Rightarrow> (case deliver cbs out of (r, calls) \<Rightarrow> (r, (cb_id cb, out) # calls)))"

definition broadcast :: "ScraperOutput \<Rightarrow> world \<Rightarrow> thrown option \<times> world" where
  "broadcast out w =
     (case deliver (listeners w) out of
        (r, calls) \<Rightarrow> (r, w\<lparr>published := published w @ [out], delivered := delivered w @ calls\<rparr>))"

definition event_of :: "OutputType \<Rightarrow> string \<Rightarrow> world \<Rightarrow> ScraperOutput" where
  "event_of t d w = \<lparr>type = t, data = d, timestamp = now w\<rparr>"

subsection \<open>\<^verbatim>\<open>runCommand\<close>\<close>

text \<open>
  The call spawns the child and returns a promise; the caller is suspended on it with an
  empty \<^verbatim>\<open>commandOutput\<close>. The working directory and the environment are not modelled.
\<close>

definition runCommand :: "nat \<Rightarrow> Stage \<Rightarrow> int \<Rightarrow> string \<Rightarrow> string list \<Rightarrow> world \<Rightarrow> world" where
  "runCommand tid st runId command args w =
     w\<lparr>tasks := (tasks w)(tid \<mapsto> K_command st runId []),
       spawned := spawned w @ [(tid, command, args)]\<rparr>"

subsection \<open>\<^verbatim>\<open>runFullPipeline\<close>\<close>

text \<open>
  The \<^verbatim>\<open>finally\<close> block up to its \<^verbatim>\<open>await\<close>. \<open>final_record\<close> is its first half: the
  statistics are parsed from the joined buffer and the \<^verbatim>\<open>data\<close> object of the update is
  built. \<open>finally_begin\<close> sends the update: the call is suspended on it.
\<close>

definition final_record :: "ScraperStatus \<Rightarrow> string option \<Rightarrow> world \<Rightarrow> FinalData" where
  "final_record finalStatus errorMsg w =
     (let fullOutput = concat (outputBuffer w);
          sellersMatch = regex_match [] '' seller(s)'' fullOutput;
          productsMatch = regex_match ''Saved '' '' products'' fullOutput
      in \<lparr>d_status = finalStatus,
          d_completedAt = now w,
          d_output = fullOutput,
          d_errorMessage = errorMsg,
          d_sellersProcessed = (case sellersMatch of Some g \<Rightarrow> parseInt g | None \<Rightarrow> Finite 0),
          d_productsScraped = (case productsMatch of Some g \<Rightarrow> parseInt g | None \<Rightarrow> Finite 0)\<rparr>)"

definition finally_begin :: "nat \<Rightarrow> int \<Rightarrow> ScraperStatus \<Rightarrow> string option \<Rightarrow> world \<Rightarrow> world" where
  "finally_begin tid runId finalStatus errorMsg w =
     w\<lparr>tasks := (tasks w)(tid \<mapsto> K_final runId (final_record finalStatus errorMsg w))\<rparr>"

text \<open>\<^verbatim>\<open>prisma.scraperRun.update({ where: { id }, data })\<close>: rejects when there is no such row.\<close>

definition update_run :: "int \<Rightarrow> (ScraperRun \<Rightarrow> ScraperRun) \<Rightarrow> world \<Rightarrow> thrown option \<times> world" where
  "update_run runId f w =
     (case runs w runId of
        None \<Rightarrow> (Some (Error ''Record to update not found.''), w)
      | Some r \<Rightarrow> (None, w\<lparr>runs := (runs w)(runId \<mapsto> f r)\<rparr>))"

text \<open>
  The rest of the \<^verbatim>\<open>finally\<close> block, once the update has settled (\<open>failure\<close> is what the
  database threw, if it did). Nothing catches here: an exception ends the call with the
  statements after it not run.
\<close>

definition finally_resume :: "nat \<Rightarrow> int \<Rightarrow> FinalData \<Rightarrow> thrown option \<Rightarrow> world \<Rightarrow> outcome \<times> world" where
  "finally_resume tid runId d failure w0 =
     (let w = w0\<lparr>tasks := (tasks w0)(tid := None)\<rparr> in
      case failure of
        Some e \<Rightarrow> (Uncaught e, w)
      | None \<Rightarrow>
         (case update_run runId (\<lambda>r. r\<lparr>status := d_status d,
                                       completedAt := Some (d_completedAt d),
                                       run_output := Some (d_output d),
                                       errorMessage := d_errorMessage d,
                                       sellersProcessed := d_sellersProcessed d,
                                       productsScraped := d_productsScraped d\<rparr>) w of
            (Some e, w1) \<Rightarrow> (Uncaught e, w1)
          | (None, w1) \<Rightarrow>
             (case broadcast (event_of Status
                     (banner (''Pipeline finished with status: '' @ status_string (d_status d))) w1) w1 of
                (Some e, w2) \<Rightarrow> (Uncaught e, w2)
              | (None, w2) \<Rightarrow>
                 (case broadcast (event_of Complete (status_string (d_status d)) w2) w2 of
                    (Some e, w3) \<Rightarrow> (Uncaught e, w3)
                  | (None, w3) \<Rightarrow>
                     (Done, w3\<lparr>pipelineStep := IDLE, currentRunId := None,
                               abortRequested := False\<rparr>)))))"

text \<open>The \<^verbatim>\<open>catch\<close> block, which falls into \<^verbatim>\<open>finally\<close>.\<close>

definition catch_message :: "thrown \<Rightarrow> string" where
  "catch_message e = (case e of Error m \<Rightarrow> m | NonError \<Rightarrow> ''Unknown error'')"

definition catch_block :: "nat \<Rightarrow> int \<Rightarrow> thrown \<Rightarrow> world \<Rightarrow> world" where
  "catch_block tid runId e w = finally_begin tid runId FAILED (Some (catch_message e)) w"

text \<open>From the call of \<^verbatim>\<open>runFullPipeline\<close> to its first \<^verbatim>\<open>await\<close>.\<close>

definition runFullPipeline :: "nat \<Rightarrow> int \<Rightarrow> world \<Rightarrow> world" where
  "runFullPipeline tid runId w0 =
     (let w = w0\<lparr>pipelineStep := SCRAPING\<rparr> in
      case broadcast (event_of Status
              (banner (''[STEP 1/3] Starting scraper (Run #'' @ show_int runId @ '')...'')) w) w of
        (Some e, w1) \<Rightarrow> catch_block tid runId e w1
      | (None, w1) \<Rightarrow> runCommand tid Scrape runId ''npm'' [''start''] w1)"

text \<open>After stage 1: \<open>code\<close> and \<open>out\<close> are the fields of \<^verbatim>\<open>scrapeResult\<close>.\<close>

definition resume_scrape :: "nat \<Rightarrow> int \<Rightarrow> int \<Rightarrow> string \<Rightarrow> world \<Rightarrow> world" where
  "resume_scrape tid runId code out w =
     (if str_includes out ''scan QR code'' \<or> str_includes out ''QR code'' then
        finally_begin tid runId AUTH_REQUIRED (Some ''WhatsApp authentication required'') w
      else if code \<noteq> 0 then
        finally_begin tid runId FAILED
          (Some (''Scraping failed with exit code '' @ show_int code)) w
      else if abortRequested w then
        finally_begin tid runId FAILED (Some ''Pipeline aborted by user'') w
      else
        (let w1 = w\<lparr>pipelineStep := Step_ENRICHING\<rparr> in
         case broadcast (event_of Status (banner ''[STEP 2/3] Starting LLM enrichment...'') w1) w1 of
           (Some e, w2) \<Rightarrow> catch_block tid runId e w2
         | (None, w2) \<Rightarrow> w2\<lparr>tasks := (tasks w2)(tid \<mapsto> K_update_enriching runId)\<rparr>))"

definition resume_update_enriching :: "nat \<Rightarrow> int \<Rightarrow> thrown option \<Rightarrow> world \<Rightarrow> world" where
  "resume_update_enriching tid runId failure w =
     (case failure of
        Some e \<Rightarrow> catch_block tid runId e w
      | None \<Rightarrow>
         (case update_run runId (\<lambda>r. r\<lparr>status := ENRICHING\<rparr>) w of
            (Some e, w1) \<Rightarrow> catch_block tid runId e w1
          | (None, w1) \<Rightarrow> runCommand tid Enrich runId ''npm'' [''run'', ''enrich''] w1))"

definition resume_enrich :: "nat \<Rightarrow> int \<Rightarrow> int \<Rightarrow> string \<Rightarrow> world \<Rightarrow> world" where
  "resume_enrich tid runId code out w =
     (if code \<noteq> 0 then
        finally_begin tid runId ENRICHMENT_FAILED
          (Some (''Enrichment failed with exit code '' @ show_int code)) w
      else if abortRequested w then
        finally_begin tid runId FAILED (Some ''Pipeline aborted by user'') w
      else
        (let w1 = w\<lparr>pipelineStep := Step_PROCESSING\<rparr> in
         case broadcast (event_of Status (banner ''[STEP 3/3] Updating database...'') w1) w1 of
           (Some e, w2) \<Rightarrow> catch_block tid runId e w2
         | (None, w2) \<Rightarrow> w2\<lparr>tasks := (tasks w2)(tid \<mapsto> K_update_processing runId)\<rparr>))"

definition resume_update_processing :: "nat \<Rightarrow> int \<Rightarrow> thrown option \<Rightarrow> world \<Rightarrow> world" where
  "resume_update_processing tid runId failure w =
     (case failure of
        Some e \<Rightarrow> catch_block tid runId e w
      | None \<Rightarrow>
         (case update_run runId (\<lambda>r. r\<lparr>status := PROCESSING\<rparr>) w of
            (Some e, w1) \<Rightarrow> catch_block tid runId e w1
          | (None, w1) \<Rightarrow> runCommand tid Process runId ''npm'' [''run'', ''processor''] w1))"

definition resume_process :: "nat \<Rightarrow> int \<Rightarrow> int \<Rightarrow> string \<Rightarrow> world \<Rightarrow> world" where
  "resume_process tid runId code out w =
     (if code \<noteq> 0 then
        finally_begin tid runId PROCESSING_FAILED
          (Some (''Database processing failed with exit code '' @ show_int code)) w
      else finally_begin tid runId COMPLETED None w)"

definition resume_command :: "nat \<Rightarrow> Stage \<Rightarrow> int \<Rightarrow> int \<Rightarrow> string \<Rightarrow> world \<Rightarrow> world" where
  "resume_command tid st runId code out w =
     (case st of
        Scrape \<Rightarrow> resume_scrape tid runId code out w
      | Enrich \<Rightarrow> resume_enrich tid runId code out w
      | Process \<Rightarrow> resume_process tid runId code out w)"

subsection \<open>The handlers \<^verbatim>\<open>runCommand\<close> installs on the child\<close>

text \<open>
  They run when the child of task \<open>tid\<close> writes, closes or fails to start, while the task
  waits for it. A handler is called by the event loop: what a subscriber throws inside it
  is caught by nobody.
\<close>

definition on_stdout :: "nat \<Rightarrow> string \<Rightarrow> world \<Rightarrow> outcome \<times> world" where
  "on_stdout tid text w =
     (case tasks w tid of
        Some (K_command st runId commandOutput) \<Rightarrow>
          (let w1 = w\<lparr>outputBuffer := outputBuffer w @ [text],
                      tasks := (tasks w)(tid \<mapsto> K_command st runId (commandOutput @ [text]))\<rparr>
           in case broadcast (event_of Stdout text w1) w1 of
                (Some e, w2) \<Rightarrow> (Uncaught e, w2)
              | (None, w2) \<Rightarrow> (Done, w2))
      | _ \<Rightarrow> (Done, w))"

definition on_stderr :: "nat \<Rightarrow> string \<Rightarrow> world \<Rightarrow> outcome \<times> world" where
  "on_stderr tid text w =
     (case tasks w tid of
        Some (K_command st runId commandOutput) \<Rightarrow>
          (let w1 = w\<lparr>outputBuffer := outputBuffer w @ [''[ERROR] '' @ text],
                      tasks := (tasks w)(tid \<mapsto>
                        K_command st runId (commandOutput @ [''[ERROR] '' @ text]))\<rparr>
           in case broadcast (event_of Stderr text w1) w1 of
                (Some e, w2) \<Rightarrow> (Uncaught e, w2)
              | (None, w2) \<Rightarrow> (Done, w2))
      | _ \<Rightarrow> (Done, w))"

text \<open>\<^verbatim>\<open>resolve({ code: code ?? 1, output: commandOutput.join('') })\<close>, and the caller goes on.\<close>

definition on_close :: "nat \<Rightarrow> int option \<Rightarrow> world \<Rightarrow> outcome \<times> world" where
  "on_close tid code w =
     (case tasks w tid of
        Some (K_command st runId commandOutput) \<Rightarrow>
          (Done, resume_command tid st runId (case code of None \<Rightarrow> 1 | Some c \<Rightarrow> c)
                   (concat commandOutput) w)
      | _ \<Rightarrow> (Done, w))"

definition on_error :: "nat \<Rightarrow> string \<Rightarrow> world \<Rightarrow> outcome \<times> world" where
  "on_error tid message w =
     (case tasks w tid of
        Some (K_command st runId commandOutput) \<Rightarrow>
          (case broadcast (event_of Stderr (''Process error: '' @ message) w) w of
             (Some e, w1) \<Rightarrow> (Uncaught e, w1)
           | (None, w1) \<Rightarrow> (Done, resume_command tid st runId 1 (concat commandOutput) w1))
      | _ \<Rightarrow> (Done, w))"

subsection \<open>\<^verbatim>\<open>startScraper\<close> and \<^verbatim>\<open>stopScraper\<close>\<close>

text \<open>Up to \<^verbatim>\<open>await prisma.scraperRun.create\<close>: the guard, then the call is suspended.\<close>

definition startScraper :: "TriggerType \<Rightarrow> world \<Rightarrow> outcome \<times> world" where
  "startScraper trigger w =
     (if isRunning w then
        (StartResult (- 1)
           (Some (''Pipeline is already running (step: '' @ step_string (pipelineStep w) @ '')'')), w)
      else
        (Suspended (nextTid w),
         w\<lparr>tasks := (tasks w)(nextTid w \<mapsto> K_create trigger), nextTid := Suc (nextTid w)\<rparr>))"

text \<open>
  Once the row is there: the fields are set, \<^verbatim>\<open>runFullPipeline\<close> is called and not awaited,
  and the run id is returned.
\<close>

definition startScraper_resume :: "nat \<Rightarrow> TriggerType \<Rightarrow> thrown option \<Rightarrow> world \<Rightarrow> outcome \<times> world" where
  "startScraper_resume tid trigger failure w0 =
     (let w = w0\<lparr>tasks := (tasks w0)(tid := None)\<rparr> in
      case failure of
        Some e \<Rightarrow> (Uncaught e, w)
      | None \<Rightarrow>
         (let runId = nextRunId w;
              w1 = w\<lparr>runs := (runs w)(runId \<mapsto>
                       \<lparr>run_id = runId, status = RUNNING, triggerType = trigger,
                        completedAt = None, run_output = None, errorMessage = None,
                        sellersProcessed = Finite 0, productsScraped = Finite 0\<rparr>),
                     nextRunId := runId + 1\<rparr>;
              w2 = w1\<lparr>currentRunId := Some runId, outputBuffer := [], abortRequested := False\<rparr>
          in (StartResult runId None, runFullPipeline tid runId w2)))"

definition abort_warning :: string where
  "abort_warning = nl @ [CHR 0xE2, CHR 0x9A, CHR 0xA0, CHR 0xEF, CHR 0xB8, CHR 0x8F]
     @ '' Abort requested. Pipeline will stop after current step completes.'' @ nl"

definition stopScraper :: "world \<Rightarrow> outcome \<times> world" where
  "stopScraper w =
     (if isRunning w then
        (let w1 = w\<lparr>abortRequested := True\<rparr> in
         case broadcast (event_of Status abort_warning w1) w1 of
           (Some e, w2) \<Rightarrow> (Uncaught e, w2)
         | (None, w2) \<Rightarrow> (StopResult True, w2))
      else (StopResult False, w))"

subsection \<open>The scheduler\<close>

text \<open>
  \<^verbatim>\<open>cron.validate\<close> belongs to the \<^verbatim>\<open>node-cron\<close> package; it is the parameter \<open>validate\<close>.
  The console is not modelled.
\<close>

definition startScheduler :: "(string \<Rightarrow> bool) \<Rightarrow> string \<Rightarrow> world \<Rightarrow> world" where
  "startScheduler validate expr w =
     (let w1 = (case scheduledTask w of
                  Some t \<Rightarrow> w\<lparr>scheduledTask := Some (t\<lparr>task_stopped := True\<rparr>)\<rparr>
                | None \<Rightarrow> w)
      in if \<not> validate expr then w1
         else w1\<lparr>scheduledTask := Some \<lparr>task_expr = expr, task_stopped = False\<rparr>\<rparr>)"

definition stopScheduler :: "world \<Rightarrow> world" where
  "stopScheduler w =
     (case scheduledTask w of
        Some t \<Rightarrow> w\<lparr>scheduledTask := None\<rparr>
      | None \<Rightarrow> w)"

definition updateSchedulerConfig :: "bool \<Rightarrow> string \<Rightarrow> world \<Rightarrow> outcome \<times> world" where
  "updateSchedulerConfig en expr w =
     (Suspended (nextTid w),
      w\<lparr>tasks := (tasks w)(nextTid w \<mapsto> K_upsert en expr), nextTid := Suc (nextTid w)\<rparr>)"

definition updateSchedulerConfig_resume ::
  "(string \<Rightarrow> bool) \<Rightarrow> nat \<Rightarrow> bool \<Rightarrow> string \<Rightarrow> thrown option \<Rightarrow> world \<Rightarrow> outcome \<times> world" where
  "updateSchedulerConfig_resume validate tid en expr failure w0 =
     (let w = w0\<lparr>tasks := (tasks w0)(tid := None)\<rparr> in
      case failure of
        Some e \<Rightarrow> (Uncaught e, w)
      | None \<Rightarrow>
         (let w1 = w\<lparr>schedulerConfig := Some \<lparr>cfg_id = 1, enabled = en, cronExpr = expr\<rparr>\<rparr>
          in if en \<and> validate expr then (Done, startScheduler validate expr w1)
             else (Done, stopScheduler w1)))"

text \<open>
  The timer of the installed task fires: its callback calls \<^verbatim>\<open>startScraper('SCHEDULED')\<close> and
  drops the result. A stopped task, or none, fires nothing.
\<close>

definition cron_fire :: "world \<Rightarrow> outcome \<times> world" where
  "cron_fire w =
     (case scheduledTask w of
        Some t \<Rightarrow> (if task_stopped t then (Done, w) else (Done, snd (startScraper SCHEDULED w)))
      | None \<Rightarrow> (Done, w))"

section \<open>Events\<close>

datatype event =
  Call_startScraper TriggerType
  | Call_stopScraper
  | Call_subscribe OutputCallback
  | Call_unsubscribe nat
  | Call_updateSchedulerConfig bool string
  | Call_startScheduler string
  | Call_stopScheduler
  | Cron_fire
  | Db_settled nat "thrown option"
  | Child_stdout nat string
  | Child_stderr nat string
  | Child_close nat "int option"
  | Child_error nat string
  | Time_passes nat

text \<open>
  \<open>Db_settled tid failure\<close>: the database call task \<open>tid\<close> waits for is settled, rejected
  with \<open>failure\<close> if that is not \<open>None\<close>; the write takes effect when it is fulfilled.
\<close>

definition db_settled :: "(string \<Rightarrow> bool) \<Rightarrow> nat \<Rightarrow> thrown option \<Rightarrow> world \<Rightarrow> outcome \<times> world" where
  "db_settled validate tid failure w =
     (case tasks w tid of
        None \<Rightarrow> (Done, w)
      | Some (K_create trigger) \<Rightarrow> startScraper_resume tid trigger failure w
      | Some (K_command st runId commandOutput) \<Rightarrow> (Done, w)
      | Some (K_update_enriching runId) \<Rightarrow> (Done, resume_update_enriching tid runId failure w)
      | Some (K_update_processing runId) \<Rightarrow> (Done, resume_update_processing tid runId failure w)
      | Some (K_final runId d) \<Rightarrow> finally_resume tid runId d failure w
      | Some (K_upsert en expr) \<Rightarrow> updateSchedulerConfig_resume validate tid en expr failure w)"

fun step :: "(string \<Rightarrow> bool) \<Rightarrow> event \<Rightarrow> world \<Rightarrow> outcome \<times> world" where
  "step validate (Call_startScraper trigger) w = startScraper trigger w"
| "step validate Call_stopScraper w = stopScraper w"
| "step validate (Call_subscribe callback) w = (Done, subscribe callback w)"
| "step validate (Call_unsubscribe r) w = (Done, unsubscribe r w)"
| "step validate (Call_updateSchedulerConfig en expr) w = updateSchedulerConfig en expr w"
| "step validate (Call_startScheduler expr) w = (Done, startScheduler validate expr w)"
| "step validate Call_stopScheduler w = (Done, stopScheduler w)"
| "step validate Cron_fire w = cron_fire w"
| "step validate (Db_settled tid failure) w = db_settled validate tid failure w"
| "step validate (Child_stdout tid text) w = on_stdout tid text w"
| "step validate (Child_stderr tid text) w = on_stderr tid text w"
| "step validate (Child_close tid code) w = on_close tid code w"
| "step validate (Child_error tid message) w = on_error tid message w"
| "step validate (Time_passes n) w = (Done, w\<lparr>now := now w + n\<rparr>)"

fun exec :: "(string \<Rightarrow> bool) \<Rightarrow> event list \<Rightarrow> world \<Rightarrow> world" where
  "exec validate [] w = w"
| "exec validate (e # es) w = exec validate es (snd (step validate e w))"

text \<open>The module has just been loaded: the field initialisers of the class, empty tables.\<close>

definition initial :: world where
  "initial =
     \<lparr>currentRunId = None, outputBuffer = [], listeners = [], scheduledTask = None,
      pipelineStep = IDLE, abortRequested = False,
      runs = Map.empty, nextRunId = 1, schedulerConfig = None,
      tasks = Map.empty, nextTid = 0, spawned = [], published = [], delivered = [], now = 0\<rparr>"

section \<open>Auxiliary notions and example inputs\<close>

text \<open>The commands task \<open>tid\<close> has spawned, oldest first.\<close>

definition spawned_by :: "nat \<Rightarrow> world \<Rightarrow> (string \<times> string list) list" where
  "spawned_by tid w = map snd (filter (\<lambda>x. fst x = tid) (spawned w))"

text \<open>The events that end the child of task \<open>tid\<close>, and the one that settles its database call.\<close>

fun child_ends :: "nat \<Rightarrow> event \<Rightarrow> bool" where
  "child_ends tid (Child_close t code) = (t = tid)"
| "child_ends tid (Child_error t message) = (t = tid)"
| "child_ends tid e = False"

fun db_settles :: "nat \<Rightarrow> event \<Rightarrow> bool" where
  "db_settles tid (Db_settled t failure) = (t = tid)"
| "db_settles tid e = False"

text \<open>The exit code \<^verbatim>\<open>runCommand\<close> resolves with when the child ends by this event.\<close>

fun exit_code :: "event \<Rightarrow> int" where
  "exit_code (Child_close t code) = (case code of None \<Rightarrow> 1 | Some c \<Rightarrow> c)"
| "exit_code (Child_error t message) = 1"
| "exit_code e = 0"

text \<open>The data a task in the \<^verbatim>\<open>finally\<close> block is about to persist.\<close>

definition final_data :: "nat \<Rightarrow> world \<Rightarrow> FinalData option" where
  "final_data tid w = (case tasks w tid of Some (K_final runId d) \<Rightarrow> Some d | _ \<Rightarrow> None)"

text \<open>The run a suspended \<^verbatim>\<open>runFullPipeline\<close> works on.\<close>

fun run_of :: "cont \<Rightarrow> int option" where
  "run_of (K_command st runId commandOutput) = Some runId"
| "run_of (K_update_enriching runId) = Some runId"
| "run_of (K_update_processing runId) = Some runId"
| "run_of (K_final runId d) = Some runId"
| "run_of (K_create trigger) = None"
| "run_of (K_upsert en expr) = None"

text \<open>
  What a call has spawned when it is suspended at a point of the \<^verbatim>\<open>try\<close> block. The state
  is \<open>consistent\<close> when the task numbers in use are below the next one, the row of every
  running pipeline exists, and every call before its \<^verbatim>\<open>finally\<close> block has spawned exactly
  the commands of the stages it has reached.
\<close>

fun spawns_so_far :: "cont \<Rightarrow> (string \<times> string list) list" where
  "spawns_so_far (K_command Scrape runId commandOutput) = [(''npm'', [''start''])]"
| "spawns_so_far (K_update_enriching runId) = [(''npm'', [''start''])]"
| "spawns_so_far (K_command Enrich runId commandOutput) =
     [(''npm'', [''start'']), (''npm'', [''run'', ''enrich''])]"
| "spawns_so_far (K_update_processing runId) =
     [(''npm'', [''start'']), (''npm'', [''run'', ''enrich''])]"
| "spawns_so_far (K_command Process runId commandOutput) =
     [(''npm'', [''start'']), (''npm'', [''run'', ''enrich'']), (''npm'', [''run'', ''processor''])]"
| "spawns_so_far k = []"

definition task_ok :: "nat \<Rightarrow> cont \<Rightarrow> world \<Rightarrow> bool" where
  "task_ok t k w =
     ((case run_of k of Some runId \<Rightarrow> runs w runId \<noteq> None | None \<Rightarrow> True)
      \<and> (case k of K_final runId d \<Rightarrow> True | _ \<Rightarrow> spawned_by t w = spawns_so_far k))"

definition consistent :: "world \<Rightarrow> bool" where
  "consistent w =
     ((\<forall>t k. tasks w t = Some k \<longrightarrow> t < nextTid w \<and> task_ok t k w)
      \<and> (\<forall>t. nextTid w \<le> t \<longrightarrow> spawned_by t w = []))"

text \<open>The task an event is addressed to.\<close>

fun target :: "event \<Rightarrow> nat option" where
  "target (Db_settled t failure) = Some t"
| "target (Child_stdout t text) = Some t"
| "target (Child_stderr t text) = Some t"
| "target (Child_close t code) = Some t"
| "target (Child_error t message) = Some t"
| "target e = None"

text \<open>The \<^verbatim>\<open>complete\<close> events handed to \<^verbatim>\<open>broadcast\<close> so far.\<close>

definition completes :: "world \<Rightarrow> ScraperOutput list" where
  "completes w = filter (\<lambda>out. type out = Complete) (published w)"

text \<open>
  What the code run for task \<open>tid\<close> leaves as it is: the task counter, the other tasks
  and what they spawned, and the existence of rows.
\<close>

definition frame :: "nat \<Rightarrow> world \<Rightarrow> world \<Rightarrow> bool" where
  "frame tid w w' =
     (nextTid w' = nextTid w
      \<and> (\<forall>u. u \<noteq> tid \<longrightarrow> tasks w' u = tasks w u)
      \<and> (\<forall>u. u \<noteq> tid \<longrightarrow> spawned_by u w' = spawned_by u w)
      \<and> (\<forall>r. runs w r \<noteq> None \<longrightarrow> runs w' r \<noteq> None))"

text \<open>Whether a task waits for a child process.\<close>

fun awaits_child :: "cont option \<Rightarrow> bool" where
  "awaits_child (Some (K_command st runId commandOutput)) = True"
| "awaits_child k = False"

text \<open>
  Task \<open>tid\<close> is \<open>alone\<close> when no other call of \<^verbatim>\<open>startScraper\<close> or \<^verbatim>\<open>runFullPipeline\<close> is
  suspended beside it.
\<close>

definition alone :: "nat \<Rightarrow> world \<Rightarrow> bool" where
  "alone tid w =
     (\<forall>t. t \<noteq> tid \<longrightarrow>
        (case tasks w t of None \<Rightarrow> True | Some (K_upsert en expr) \<Rightarrow> True | Some k \<Rightarrow> False))"

text \<open>
  What the run of task \<open>tid\<close> keeps of the chunks \<open>B\<close> the buffer once held: while the run
  is in its \<^verbatim>\<open>try\<close> block, with no other run in flight and the step not \<open>IDLE\<close>, the
  buffer starts with \<open>B\<close>; once it is in its \<^verbatim>\<open>finally\<close> block, the output it sends to the
  database starts with the chunks of \<open>B\<close>, joined.
\<close>

definition keeps_output :: "nat \<Rightarrow> int \<Rightarrow> string list \<Rightarrow> world \<Rightarrow> bool" where
  "keeps_output tid runId B w =
     (tid < nextTid w
      \<and> (case tasks w tid of
           None \<Rightarrow> True
         | Some k \<Rightarrow>
             run_of k = Some runId \<and> runs w runId \<noteq> None
             \<and> (case final_data tid w of
                  Some d \<Rightarrow> prefix (concat B) (d_output d)
                | None \<Rightarrow> alone tid w \<and> pipelineStep w \<noteq> IDLE \<and> prefix B (outputBuffer w))))"

text \<open>
  An occurrence of \<^verbatim>\<open>/pre(\d+)post/\<close> in a text, said directly: at position \<open>i\<close> the text
  goes on with \<open>pre\<close>, the digits \<open>ds\<close> (at least one) and \<open>post\<close>.
\<close>

definition occurs_at :: "string \<Rightarrow> string \<Rightarrow> string \<Rightarrow> nat \<Rightarrow> string \<Rightarrow> bool" where
  "occurs_at pre post text i ds =
     (i \<le> length text \<and> ds \<noteq> [] \<and> list_all is_digit ds \<and> prefix (pre @ ds @ post) (drop i text))"

text \<open>An expression checker that accepts the default expression of the service only.\<close>

definition valid_twice_daily :: "string \<Rightarrow> bool" where
  "valid_twice_daily expr = (expr = ''0 9,21 * * *'')"

definition quiet_callback :: "nat \<Rightarrow> OutputCallback" where
  "quiet_callback r = \<lparr>cb_id = r, cb_throws = (\<lambda>out. None)\<rparr>"

definition throwing_callback :: "nat \<Rightarrow> OutputCallback" where
  "throwing_callback r = \<lparr>cb_id = r, cb_throws = (\<lambda>out. Some (Error ''boom''))\<rparr>"

definition hello :: ScraperOutput where
  "hello = \<lparr>type = Stdout, data = ''hello'', timestamp = 0\<rparr>"

text \<open>
  Two histories: a run whose scraper has printed the login prompt, and a run that has
  reached stage 2.
\<close>

definition until_scrape :: "event list" where
  "until_scrape =
     [Call_startScraper MANUAL, Db_settled 0 None, Child_stdout 0 ''Please scan QR code'']"


text \<open>
  The number a string of decimal digits denotes, said directly, to compare
  \<open>digits_value\<close> with.
\<close>

definition decimal_value :: "string \<Rightarrow> nat" where
  "decimal_value ds = (\<Sum>i<length ds. digit_val (ds ! i) * 10 ^ (length ds - Suc i))"

text \<open>
  The natural numbers with at most 53 significant bits, said directly, to compare
  \<open>to_double\<close> with: the finite doubles that are natural numbers are those below
  \<open>2 ^ 1024\<close>.
\<close>

definition fits_53_bits :: "nat \<Rightarrow> bool" where
  "fits_53_bits d = (2 ^ (bit_length d - 53) dvd d)"

text \<open>A state whose buffer holds two reports of each kind.\<close>

definition two_reports :: world where
  "two_reports = initial\<lparr>outputBuffer :=
     [''7 seller(s) 9 seller(s) '', ''Saved 42 products Saved 1 products'']\<rparr>"

text \<open>A state whose buffer holds a report with a number that is not a double.\<close>

definition big_report :: world where
  "big_report = initial\<lparr>outputBuffer := [''9007199254740993 seller(s)'']\<rparr>"

text \<open>
  A history of the scheduler: enabled, disabled in the store, a timer installed, and an
  update that enables it with an expression the checker rejects, not yet written.
\<close>

definition timer_installed :: "event list" where
  "timer_installed =
     [Call_updateSchedulerConfig True ''0 9,21 * * *'', Db_settled 0 None,
      Call_updateSchedulerConfig False ''0 9,21 * * *'', Db_settled 1 None,
      Call_startScheduler ''0 9,21 * * *'',
      Call_updateSchedulerConfig True ''every day'']"

text \<open>
  More histories of one run: stage 1 has printed a listing; stage 3 is running; stage 3
  has exited with code 0 and the run waits for its last update; and a run during which the
  database rejects every update after the first.
\<close>

definition until_listing :: "event list" where
  "until_listing =
     [Call_startScraper MANUAL, Db_settled 0 None, Child_stdout 0 ''Found 7 seller(s)'']"

text \<open>A subscriber joins while the scraper lists the sellers.\<close>

definition until_listing_watched :: "event list" where
  "until_listing_watched =
     [Call_startScraper MANUAL, Db_settled 0 None, Child_stdout 0 ''Found 7 seller(s)'',
      Call_subscribe (quiet_callback 7)]"

definition until_process :: "event list" where
  "until_process =
     [Call_startScraper MANUAL, Db_settled 0 None, Child_close 0 (Some 0), Db_settled 0 None,
      Child_close 0 (Some 0), Db_settled 0 None, Child_stdout 0 ''Saved 42 products'']"

text \<open>A subscriber that throws joins during stage 3.\<close>

definition until_process_watched :: "event list" where
  "until_process_watched =
     [Call_startScraper MANUAL, Db_settled 0 None, Child_close 0 (Some 0), Db_settled 0 None,
      Child_close 0 (Some 0), Db_settled 0 None, Child_stdout 0 ''Saved 42 products'',
      Call_subscribe (throwing_callback 9)]"



text \<open>
  Two start requests overlap, the scraper of the first run complains on its standard
  error, and the first run ends after the second has begun.
\<close>

definition overlapping_stderr :: "event list" where
  "overlapping_stderr =
     [Call_startScraper MANUAL, Call_startScraper SCHEDULED, Db_settled 0 None,
      Child_stderr 0 ''slow network'', Db_settled 1 None, Child_close 0 (Some 1),
      Db_settled 0 None]"

section \<open>Single flight\<close>

lemma startScraper_rejected_while_running:
  "pipelineStep w \<noteq> IDLE \<Longrightarrow>
     step validate (Call_startScraper trigger) w =
       (StartResult (- 1)
          (Some (''Pipeline is already running (step: '' @ step_string (pipelineStep w) @ '')'')), w)"
  by (simp add: startScraper_def isRunning_def)

text \<open>
  C1. A start request is rejected, and creates no run, when the step is not \<open>IDLE\<close>
  (\<open>startScraper_rejected_while_running\<close>). The step leaves \<open>IDLE\<close> only after the row of the
  run has been created, and \<^verbatim>\<open>startScraper\<close> is suspended while it is: a second request
  that arrives in between passes the guard as well. Two requests, then the two rows
  created: runs 1 and 2 are both \<open>RUNNING\<close> and two scrapers have been spawned.
\<close>

theorem overlapping_starts_two_running:
  "map_option status (runs (exec valid_twice_daily
       [Call_startScraper MANUAL, Call_startScraper SCHEDULED, Db_settled 0 None, Db_settled 1 None]
       initial) 1) = Some RUNNING
   \<and> map_option status (runs (exec valid_twice_daily
       [Call_startScraper MANUAL, Call_startScraper SCHEDULED, Db_settled 0 None, Db_settled 1 None]
       initial) 2) = Some RUNNING
   \<and> spawned (exec valid_twice_daily
       [Call_startScraper MANUAL, Call_startScraper SCHEDULED, Db_settled 0 None, Db_settled 1 None]
       initial) = [(0, ''npm'', [''start'']), (1, ''npm'', [''start''])]"
  by (simp add: startScraper_def startScraper_resume_def runFullPipeline_def runCommand_def
        broadcast_def event_of_def isRunning_def db_settled_def initial_def Let_def)

section \<open>Broadcasting\<close>

lemma deliver_calls:
  "snd (deliver ls out) =
     map (\<lambda>cb. (cb_id cb, out))
       (takeWhile (\<lambda>cb. cb_throws cb out = None) ls
        @ take 1 (dropWhile (\<lambda>cb. cb_throws cb out = None) ls))"
  by (induction ls) (auto split: option.splits prod.splits)

lemma deliver_thrown:
  "fst (deliver ls out) =
     (case dropWhile (\<lambda>cb. cb_throws cb out = None) ls of
        [] \<Rightarrow> None
      | cb # rest \<Rightarrow> cb_throws cb out)"
  by (induction ls) (auto split: option.splits prod.splits)

lemma broadcast_eq:
  "broadcast out w =
     (fst (deliver (listeners w) out),
      w\<lparr>published := published w @ [out],
        delivered := delivered w @ snd (deliver (listeners w) out)\<rparr>)"
  by (simp add: broadcast_def split: prod.splits)

text \<open>
  C5, as the code has it. \<^verbatim>\<open>broadcast\<close> calls the subscribed callbacks in subscription order,
  up to and including the first one that throws; what that one throws reaches the
  publisher, and the callbacks after it are not called. When no callback throws on the
  event, every subscriber is called, in order, and nothing is thrown.
\<close>

theorem broadcast_stops_at_first_throw:
  "fst (broadcast out w) =
     (case dropWhile (\<lambda>cb. cb_throws cb out = None) (listeners w) of
        [] \<Rightarrow> None
      | cb # rest \<Rightarrow> cb_throws cb out)
   \<and> delivered (snd (broadcast out w)) =
       delivered w @ map (\<lambda>cb. (cb_id cb, out))
         (takeWhile (\<lambda>cb. cb_throws cb out = None) (listeners w)
          @ take 1 (dropWhile (\<lambda>cb. cb_throws cb out = None) (listeners w)))
   \<and> ((\<forall>cb \<in> set (listeners w). cb_throws cb out = None) \<longrightarrow>
        fst (broadcast out w) = None
        \<and> delivered (snd (broadcast out w)) =
            delivered w @ map (\<lambda>cb. (cb_id cb, out)) (listeners w))"
proof (intro conjI impI)
  show "fst (broadcast out w) =
     (case dropWhile (\<lambda>cb. cb_throws cb out = None) (listeners w) of
        [] \<Rightarrow> None
      | cb # rest \<Rightarrow> cb_throws cb out)"
    by (simp add: broadcast_eq deliver_thrown)
  show "delivered (snd (broadcast out w)) =
       delivered w @ map (\<lambda>cb. (cb_id cb, out))
         (takeWhile (\<lambda>cb. cb_throws cb out = None) (listeners w)
          @ take 1 (dropWhile (\<lambda>cb. cb_throws cb out = None) (listeners w)))"
    by (simp add: broadcast_eq deliver_calls)
next
  assume quiet: "\<forall>cb \<in> set (listeners w). cb_throws cb out = None"
  then have tw: "takeWhile (\<lambda>cb. cb_throws cb out = None) (listeners w) = listeners w"
    and dw: "dropWhile (\<lambda>cb. cb_throws cb out = None) (listeners w) = []"
    by simp_all
  show "fst (broadcast out w) = None"
    by (simp add: broadcast_eq deliver_thrown dw)
  show "delivered (snd (broadcast out w)) =
          delivered w @ map (\<lambda>cb. (cb_id cb, out)) (listeners w)"
    by (simp add: broadcast_eq deliver_calls tw dw)
qed

theorem broadcast_stops_at_first_throw_witness:
  "cb_throws (quiet_callback 1) hello = None
   \<and> cb_throws (quiet_callback 2) hello = None
   \<and> fst (broadcast hello (initial\<lparr>listeners := [quiet_callback 1, quiet_callback 2]\<rparr>)) = None
   \<and> delivered (snd (broadcast hello (initial\<lparr>listeners := [quiet_callback 1, quiet_callback 2]\<rparr>)))
       = [(1, hello), (2, hello)]"
  using broadcast_stops_at_first_throw
    [of hello "initial\<lparr>listeners := [quiet_callback 1, quiet_callback 2]\<rparr>"]
  by (simp add: quiet_callback_def initial_def)

text \<open>
  C5 as stated fails: with a throwing callback subscribed before a quiet one, the error
  reaches the publisher and the quiet one is never called.
\<close>

theorem throwing_subscriber_blocks_later_ones:
  "fst (broadcast hello (initial\<lparr>listeners := [throwing_callback 1, quiet_callback 2]\<rparr>))
     = Some (Error ''boom'')
   \<and> delivered (snd (broadcast hello (initial\<lparr>listeners := [throwing_callback 1, quiet_callback 2]\<rparr>)))
       = [(1, hello)]"
  by (simp add: broadcast_def throwing_callback_def quiet_callback_def initial_def)

section \<open>What each stretch of code leaves unchanged\<close>

lemmas goal_splits = option.split cont.split Stage.split prod.split if_split

lemma frame_refl: "frame tid w w"
  by (simp add: frame_def)

lemma frame_trans: "frame tid w w1 \<Longrightarrow> frame tid w1 w2 \<Longrightarrow> frame tid w w2"
  by (simp add: frame_def)

lemma finally_begin_frame:
  "frame tid w (finally_begin tid runId s m w)"
  "tasks (finally_begin tid runId s m w) tid = Some (K_final runId (final_record s m w))"
  "spawned_by tid (finally_begin tid runId s m w) = spawned_by tid w"
  by (simp_all add: finally_begin_def frame_def spawned_by_def)

lemma catch_block_frame:
  "frame tid w (catch_block tid runId e w)"
  "tasks (catch_block tid runId e w) tid
     = Some (K_final runId (final_record FAILED (Some (catch_message e)) w))"
  "spawned_by tid (catch_block tid runId e w) = spawned_by tid w"
  by (simp_all add: catch_block_def finally_begin_frame)

lemma runFullPipeline_frame:
  "frame tid w (runFullPipeline tid runId w)"
  "(tasks (runFullPipeline tid runId w) tid = Some (K_command Scrape runId [])
      \<and> spawned_by tid (runFullPipeline tid runId w) = spawned_by tid w @ [(''npm'', [''start''])])
   \<or> (final_data tid (runFullPipeline tid runId w) \<noteq> None
      \<and> tasks (runFullPipeline tid runId w) tid
          = Some (K_final runId (the (final_data tid (runFullPipeline tid runId w))))
      \<and> spawned_by tid (runFullPipeline tid runId w) = spawned_by tid w)"
  by (simp_all add: runFullPipeline_def runCommand_def catch_block_def finally_begin_def
        broadcast_eq Let_def frame_def spawned_by_def event_of_def final_data_def
        split: goal_splits)

lemma resume_command_frame:
  "frame tid w (resume_command tid st runId code out w)"
  "spawned_by tid (resume_command tid st runId code out w) = spawned_by tid w"
  "(st = Scrape \<and> tasks (resume_command tid st runId code out w) tid = Some (K_update_enriching runId))
   \<or> (st = Enrich \<and> tasks (resume_command tid st runId code out w) tid = Some (K_update_processing runId))
   \<or> (final_data tid (resume_command tid st runId code out w) \<noteq> None
      \<and> tasks (resume_command tid st runId code out w) tid
          = Some (K_final runId (the (final_data tid (resume_command tid st runId code out w)))))"
  by (simp_all add: resume_command_def resume_scrape_def resume_enrich_def resume_process_def
        catch_block_def finally_begin_def
        broadcast_eq Let_def frame_def spawned_by_def event_of_def final_data_def
        split: goal_splits)

lemma resume_update_enriching_frame:
  "frame tid w (resume_update_enriching tid runId failure w)"
  "(tasks (resume_update_enriching tid runId failure w) tid = Some (K_command Enrich runId [])
      \<and> spawned_by tid (resume_update_enriching tid runId failure w)
          = spawned_by tid w @ [(''npm'', [''run'', ''enrich''])])
   \<or> (final_data tid (resume_update_enriching tid runId failure w) \<noteq> None
      \<and> tasks (resume_update_enriching tid runId failure w) tid
          = Some (K_final runId (the (final_data tid (resume_update_enriching tid runId failure w))))
      \<and> spawned_by tid (resume_update_enriching tid runId failure w) = spawned_by tid w)"
  by (simp_all add: resume_update_enriching_def update_run_def runCommand_def
        catch_block_def finally_begin_def
        Let_def frame_def spawned_by_def final_data_def
        split: goal_splits)

lemma resume_update_processing_frame:
  "frame tid w (resume_update_processing tid runId failure w)"
  "(tasks (resume_update_processing tid runId failure w) tid = Some (K_command Process runId [])
      \<and> spawned_by tid (resume_update_processing tid runId failure w)
          = spawned_by tid w @ [(''npm'', [''run'', ''processor''])])
   \<or> (final_data tid (resume_update_processing tid runId failure w) \<noteq> None
      \<and> tasks (resume_update_processing tid runId failure w) tid
          = Some (K_final runId (the (final_data tid (resume_update_processing tid runId failure w))))
      \<and> spawned_by tid (resume_update_processing tid runId failure w) = spawned_by tid w)"
  by (simp_all add: resume_update_processing_def update_run_def runCommand_def
        catch_block_def finally_begin_def
        Let_def frame_def spawned_by_def final_data_def
        split: goal_splits)


lemma frameD:
  assumes "frame t w w'"
  shows "nextTid w' = nextTid w"
    and "u \<noteq> t \<Longrightarrow> tasks w' u = tasks w u"
    and "u \<noteq> t \<Longrightarrow> spawned_by u w' = spawned_by u w"
    and "runs w r \<noteq> None \<Longrightarrow> runs w' r \<noteq> None"
  using assms by (simp_all add: frame_def)

lemma finally_resume_frame:
  "frame tid w (snd (finally_resume tid runId d failure w))"
  "tasks (snd (finally_resume tid runId d failure w)) tid = None"
  "spawned_by tid (snd (finally_resume tid runId d failure w)) = spawned_by tid w"
  by (simp_all add: finally_resume_def update_run_def broadcast_eq Let_def frame_def spawned_by_def
        split: goal_splits)

lemma startScraper_resume_eq:
  "snd (startScraper_resume tid trigger None w) =
     runFullPipeline tid (nextRunId w)
       (w\<lparr>tasks := (tasks w)(tid := None),
          runs := (runs w)(nextRunId w \<mapsto>
                       \<lparr>run_id = nextRunId w, status = RUNNING, triggerType = trigger,
                        completedAt = None, run_output = None, errorMessage = None,
                        sellersProcessed = Finite 0, productsScraped = Finite 0\<rparr>),
          nextRunId := nextRunId w + 1,
          currentRunId := Some (nextRunId w), outputBuffer := [], abortRequested := False\<rparr>)"
  by (simp add: startScraper_resume_def Let_def)

lemma startScraper_resume_failed:
  "snd (startScraper_resume tid trigger (Some e) w) = w\<lparr>tasks := (tasks w)(tid := None)\<rparr>"
  by (simp add: startScraper_resume_def Let_def)

lemma startScraper_resume_frame:
  "frame tid w (snd (startScraper_resume tid trigger failure w))"
proof (cases failure)
  case None
  let ?w2 = "w\<lparr>tasks := (tasks w)(tid := None),
                runs := (runs w)(nextRunId w \<mapsto>
                       \<lparr>run_id = nextRunId w, status = RUNNING, triggerType = trigger,
                        completedAt = None, run_output = None, errorMessage = None,
                        sellersProcessed = Finite 0, productsScraped = Finite 0\<rparr>),
                nextRunId := nextRunId w + 1,
                currentRunId := Some (nextRunId w), outputBuffer := [], abortRequested := False\<rparr>"
  have "frame tid w ?w2"
    by (simp add: frame_def spawned_by_def)
  then have "frame tid w (runFullPipeline tid (nextRunId w) ?w2)"
    by (rule frame_trans) (rule runFullPipeline_frame(1))
  then show ?thesis
    using None by (simp only: startScraper_resume_eq)
next
  case (Some e)
  then show ?thesis
    by (simp add: startScraper_resume_failed frame_def spawned_by_def)
qed

lemma updateSchedulerConfig_resume_frame:
  "frame tid w (snd (updateSchedulerConfig_resume validate tid en expr failure w))"
  "tasks (snd (updateSchedulerConfig_resume validate tid en expr failure w)) tid = None"
  "spawned_by tid (snd (updateSchedulerConfig_resume validate tid en expr failure w)) = spawned_by tid w"
  by (simp_all add: updateSchedulerConfig_resume_def startScheduler_def stopScheduler_def
        Let_def frame_def spawned_by_def split: goal_splits)

lemma db_settled_frame:
  "frame t w (snd (db_settled validate t failure w))"
  by (simp add: db_settled_def frame_refl startScraper_resume_frame finally_resume_frame
        resume_update_enriching_frame resume_update_processing_frame
        updateSchedulerConfig_resume_frame split: goal_splits)

lemma db_settled_idle:
  "tasks w t = None \<or> awaits_child (tasks w t) \<Longrightarrow> db_settled validate t failure w = (Done, w)"
  by (auto simp: db_settled_def split: option.splits cont.splits)

lemma on_stdout_frame:
  "frame t w (snd (on_stdout t text w))"
  "spawned_by t (snd (on_stdout t text w)) = spawned_by t w"
  "tasks w t = Some (K_command st runId out) \<Longrightarrow>
     tasks (snd (on_stdout t text w)) t = Some (K_command st runId (out @ [text]))"
  by (simp_all add: on_stdout_def broadcast_eq Let_def frame_def spawned_by_def event_of_def
        split: goal_splits)

lemma on_stdout_idle:
  "\<not> awaits_child (tasks w t) \<Longrightarrow> on_stdout t text w = (Done, w)"
  by (auto simp: on_stdout_def split: option.splits cont.splits)

lemma on_stderr_frame:
  "frame t w (snd (on_stderr t text w))"
  "spawned_by t (snd (on_stderr t text w)) = spawned_by t w"
  "tasks w t = Some (K_command st runId out) \<Longrightarrow>
     tasks (snd (on_stderr t text w)) t = Some (K_command st runId (out @ [''[ERROR] '' @ text]))"
  by (simp_all add: on_stderr_def broadcast_eq Let_def frame_def spawned_by_def event_of_def
        split: goal_splits)

lemma on_stderr_idle:
  "\<not> awaits_child (tasks w t) \<Longrightarrow> on_stderr t text w = (Done, w)"
  by (auto simp: on_stderr_def split: option.splits cont.splits)

lemma on_close_frame:
  "frame t w (snd (on_close t code w))"
  "spawned_by t (snd (on_close t code w)) = spawned_by t w"
  by (simp_all add: on_close_def frame_refl resume_command_frame split: goal_splits)

lemma on_close_idle:
  "\<not> awaits_child (tasks w t) \<Longrightarrow> on_close t code w = (Done, w)"
  by (auto simp: on_close_def split: option.splits cont.splits)

lemma broadcast_frame:
  "frame t w (snd (broadcast out w))"
  "spawned_by u (snd (broadcast out w)) = spawned_by u w"
  "tasks (snd (broadcast out w)) = tasks w"
  by (simp_all add: broadcast_eq frame_def spawned_by_def)

lemma on_error_frame:
  "frame t w (snd (on_error t message w))"
  "spawned_by t (snd (on_error t message w)) = spawned_by t w"
proof -
  have eq: "snd (on_error t message w) = w
      \<or> snd (on_error t message w) = snd (broadcast (event_of Stderr (''Process error: '' @ message) w) w)
      \<or> (\<exists>st runId out. snd (on_error t message w) =
            resume_command t st runId 1 out
              (snd (broadcast (event_of Stderr (''Process error: '' @ message) w) w)))"
    by (simp add: on_error_def split: goal_splits) (metis prod.collapse snd_conv)
  show "frame t w (snd (on_error t message w))"
    using eq frame_refl broadcast_frame(1) frame_trans [OF broadcast_frame(1) resume_command_frame(1)]
    by metis
  show "spawned_by t (snd (on_error t message w)) = spawned_by t w"
    using eq by (auto simp: broadcast_frame resume_command_frame)
qed

lemma on_error_idle:
  "\<not> awaits_child (tasks w t) \<Longrightarrow> on_error t message w = (Done, w)"
  by (auto simp: on_error_def split: option.splits cont.splits)

lemma step_targeted_frame:
  "target e = Some t \<Longrightarrow> frame t w (snd (step validate e w))"
  by (cases e)
     (simp_all add: db_settled_frame on_stdout_frame on_stderr_frame on_close_frame on_error_frame)

section \<open>Invariants of the event loop\<close>

lemma startScraper_snd:
  "snd (startScraper trigger w) =
     (if pipelineStep w = IDLE
      then w\<lparr>tasks := (tasks w)(nextTid w \<mapsto> K_create trigger), nextTid := Suc (nextTid w)\<rparr>
      else w)"
  by (simp add: startScraper_def isRunning_def)

lemma stopScraper_snd:
  "snd (stopScraper w) =
     (if pipelineStep w = IDLE then w
      else snd (broadcast (event_of Status abort_warning (w\<lparr>abortRequested := True\<rparr>))
                 (w\<lparr>abortRequested := True\<rparr>)))"
  by (simp add: stopScraper_def isRunning_def Let_def split: prod.split option.split)

lemma cron_fire_snd:
  "snd (cron_fire w) = w \<or> snd (cron_fire w) = snd (startScraper SCHEDULED w)"
  by (simp add: cron_fire_def split: option.split)

lemmas untargeted_defs =
  startScraper_snd stopScraper_snd subscribe_def unsubscribe_def
  updateSchedulerConfig_def startScheduler_def stopScheduler_def broadcast_eq Let_def

lemma step_untargeted:
  assumes "target e = None"
  shows "spawned (snd (step validate e w)) = spawned w"
    and "runs (snd (step validate e w)) = runs w"
    and "pipelineStep (snd (step validate e w)) = pipelineStep w"
    and "outputBuffer (snd (step validate e w)) = outputBuffer w"
    and "abortRequested w \<Longrightarrow> abortRequested (snd (step validate e w))"
proof -
  show "spawned (snd (step validate e w)) = spawned w"
    using assms cron_fire_snd [of w]
    by (cases e) (auto simp: untargeted_defs split: option.split)
  show "runs (snd (step validate e w)) = runs w"
    using assms cron_fire_snd [of w]
    by (cases e) (auto simp: untargeted_defs split: option.split)
  show "pipelineStep (snd (step validate e w)) = pipelineStep w"
    using assms cron_fire_snd [of w]
    by (cases e) (auto simp: untargeted_defs split: option.split)
  show "outputBuffer (snd (step validate e w)) = outputBuffer w"
    using assms cron_fire_snd [of w]
    by (cases e) (auto simp: untargeted_defs split: option.split)
  show "abortRequested w \<Longrightarrow> abortRequested (snd (step validate e w))"
    using assms cron_fire_snd [of w]
    by (cases e) (auto simp: untargeted_defs split: option.split)
qed

lemma step_untargeted_tasks:
  assumes "target e = None"
  shows "(tasks (snd (step validate e w)) = tasks w \<and> nextTid (snd (step validate e w)) = nextTid w)
       \<or> (\<exists>trigger. pipelineStep w = IDLE
            \<and> tasks (snd (step validate e w)) = (tasks w)(nextTid w \<mapsto> K_create trigger)
            \<and> nextTid (snd (step validate e w)) = Suc (nextTid w))
       \<or> (\<exists>en expr. tasks (snd (step validate e w)) = (tasks w)(nextTid w \<mapsto> K_upsert en expr)
            \<and> nextTid (snd (step validate e w)) = Suc (nextTid w))"
  using assms cron_fire_snd [of w]
  by (cases e) (auto simp: untargeted_defs split: option.split if_splits)

lemma step_nextTid:
  "nextTid w \<le> nextTid (snd (step validate e w))"
proof (cases "target e")
  case None
  then show ?thesis
    using step_untargeted_tasks [of e validate w] by auto
next
  case (Some t)
  then show ?thesis
    using step_targeted_frame [of e t w validate] by (simp add: frame_def)
qed

lemma step_other_task:
  assumes "target e \<noteq> Some u" and "u < nextTid w"
  shows "tasks (snd (step validate e w)) u = tasks w u"
proof (cases "target e")
  case None
  then show ?thesis
    using step_untargeted_tasks [of e validate w] assms(2) by auto
next
  case (Some t)
  then show ?thesis
    using step_targeted_frame [of e t w validate] assms(1) by (simp add: frame_def)
qed

lemma step_other_spawned:
  assumes "target e \<noteq> Some u"
  shows "spawned_by u (snd (step validate e w)) = spawned_by u w"
proof (cases "target e")
  case None
  then show ?thesis
    using step_untargeted(1) [of e validate w] by (simp add: spawned_by_def)
next
  case (Some t)
  then show ?thesis
    using step_targeted_frame [of e t w validate] assms(1) by (simp add: frame_def)
qed

lemma step_keeps_runs:
  assumes "runs w r \<noteq> None"
  shows "runs (snd (step validate e w)) r \<noteq> None"
proof (cases "target e")
  case None
  then show ?thesis
    using step_untargeted(2) [of e validate w] assms by simp
next
  case (Some t)
  then show ?thesis
    using step_targeted_frame [of e t w validate] assms by (simp add: frame_def)
qed

lemma step_keeps_command:
  assumes "tasks w tid = Some (K_command st runId out)" and "tid < nextTid w"
    and "\<not> child_ends tid e"
  shows "\<exists>out'. tasks (snd (step validate e w)) tid = Some (K_command st runId out')"
proof (cases "target e = Some tid")
  case False
  then show ?thesis
    using step_other_task [of e tid w validate] assms by simp
next
  case True
  then show ?thesis
    using assms
    by (cases e) (simp_all add: on_stdout_frame on_stderr_frame db_settled_idle)
qed

lemma step_keeps_final:
  assumes "tasks w tid = Some (K_final runId d)" and "tid < nextTid w"
    and "\<not> db_settles tid e"
  shows "tasks (snd (step validate e w)) tid = Some (K_final runId d)"
proof (cases "target e = Some tid")
  case False
  then show ?thesis
    using step_other_task [of e tid w validate] assms by simp
next
  case True
  then show ?thesis
    using assms
    by (cases e) (simp_all add: on_stdout_idle on_stderr_idle on_close_idle on_error_idle)
qed

lemma step_after_try:
  assumes "tid < nextTid w" and "final_data tid w \<noteq> None \<or> tasks w tid = None"
  shows "final_data tid (snd (step validate e w)) \<noteq> None \<or> tasks (snd (step validate e w)) tid = None"
    and "spawned_by tid (snd (step validate e w)) = spawned_by tid w"
proof -
  have idle: "\<not> awaits_child (tasks w tid)"
    using assms(2) by (auto simp: final_data_def split: option.splits cont.splits)
  show "final_data tid (snd (step validate e w)) \<noteq> None \<or> tasks (snd (step validate e w)) tid = None"
  proof (cases "target e = Some tid")
    case False
    then show ?thesis
      using step_other_task [of e tid w validate] assms by (simp add: final_data_def)
  next
    case True
    then show ?thesis
      using assms(2) idle
      by (cases e)
         (auto simp: on_stdout_idle on_stderr_idle on_close_idle on_error_idle db_settled_def
            finally_resume_frame final_data_def split: option.splits cont.splits)
  qed
  show "spawned_by tid (snd (step validate e w)) = spawned_by tid w"
  proof (cases "target e = Some tid")
    case False
    then show ?thesis
      by (rule step_other_spawned)
  next
    case True
    then show ?thesis
      using assms(2) idle
      by (cases e)
         (auto simp: on_stdout_idle on_stderr_idle on_close_idle on_error_idle db_settled_def
            finally_resume_frame final_data_def split: option.splits cont.splits)
  qed
qed

lemma spawns_so_far_command [simp]:
  "spawns_so_far (K_command st runId out') = spawns_so_far (K_command st runId out)"
  by (cases st) simp_all

lemma runFullPipeline_ok:
  assumes "spawned_by t w = []" and "runs w runId \<noteq> None"
    and "tasks (runFullPipeline t runId w) t = Some k'"
  shows "task_ok t k' (runFullPipeline t runId w)"
  using assms runFullPipeline_frame(2) [of t runId w]
    frameD(4) [OF runFullPipeline_frame(1), of w runId t runId]
  by (auto simp: task_ok_def)

lemma resume_update_enriching_ok:
  assumes "task_ok t (K_update_enriching runId) w"
    and "tasks (resume_update_enriching t runId failure w) t = Some k'"
  shows "task_ok t k' (resume_update_enriching t runId failure w)"
  using assms resume_update_enriching_frame(2) [of t runId failure w]
    frameD(4) [OF resume_update_enriching_frame(1), of w runId t runId failure]
  by (auto simp: task_ok_def)

lemma resume_update_processing_ok:
  assumes "task_ok t (K_update_processing runId) w"
    and "tasks (resume_update_processing t runId failure w) t = Some k'"
  shows "task_ok t k' (resume_update_processing t runId failure w)"
  using assms resume_update_processing_frame(2) [of t runId failure w]
    frameD(4) [OF resume_update_processing_frame(1), of w runId t runId failure]
  by (auto simp: task_ok_def)

lemma resume_command_ok:
  assumes "task_ok t (K_command st runId out) w"
    and "tasks (resume_command t st runId c joined w) t = Some k'"
  shows "task_ok t k' (resume_command t st runId c joined w)"
  using assms resume_command_frame(3) [of st t runId c joined w]
    resume_command_frame(2) [of t st runId c joined w]
    frameD(4) [OF resume_command_frame(1), of w runId t st runId c joined]
  by (auto simp: task_ok_def)

lemma task_ok_broadcast [simp]:
  "task_ok t k (snd (broadcast out w)) = task_ok t k w"
  by (simp add: task_ok_def broadcast_eq spawned_by_def split: option.split cont.split)

lemma on_error_command:
  "tasks w t = Some (K_command st runId out) \<Longrightarrow>
     snd (on_error t message w) =
       (case fst (broadcast (event_of Stderr (''Process error: '' @ message) w) w) of
          Some e \<Rightarrow> snd (broadcast (event_of Stderr (''Process error: '' @ message) w) w)
        | None \<Rightarrow> resume_command t st runId 1 (concat out)
                    (snd (broadcast (event_of Stderr (''Process error: '' @ message) w) w)))"
  by (simp add: on_error_def split: prod.split option.split)

lemma on_error_ok:
  assumes "tasks w t = Some k" and "task_ok t k w"
    and "tasks (snd (on_error t message w)) t = Some k'"
  shows "task_ok t k' (snd (on_error t message w))"
proof (cases "awaits_child (tasks w t)")
  case False
  then show ?thesis
    using assms by (simp add: on_error_idle)
next
  case True
  then obtain st runId out where k: "k = K_command st runId out"
    using assms(1) by (cases k) simp_all
  let ?w1 = "snd (broadcast (event_of Stderr (''Process error: '' @ message) w) w)"
  have ok1: "task_ok t (K_command st runId out) ?w1"
    using assms(2) k by simp
  have t1: "tasks ?w1 t = Some k"
    using assms(1) by (simp add: broadcast_frame)
  show ?thesis
  proof (cases "fst (broadcast (event_of Stderr (''Process error: '' @ message) w) w)")
    case None
    then have eq: "snd (on_error t message w) = resume_command t st runId 1 (concat out) ?w1"
      using assms(1) k on_error_command [of w t st runId out message] by simp
    show ?thesis
      using resume_command_ok [OF ok1] assms(3) unfolding eq by simp
  next
    case (Some e)
    then have eq: "snd (on_error t message w) = ?w1"
      using assms(1) k on_error_command [of w t st runId out message] by simp
    show ?thesis
      using ok1 t1 assms(3) k unfolding eq by simp
  qed
qed

lemma startScraper_resume_ok:
  assumes "task_ok t (K_create trigger) w"
    and "tasks (snd (startScraper_resume t trigger failure w)) t = Some k'"
  shows "task_ok t k' (snd (startScraper_resume t trigger failure w))"
proof (cases failure)
  case (Some e)
  then show ?thesis
    using assms(2) by (simp add: startScraper_resume_failed)
next
  case None
  show ?thesis
    using assms unfolding None startScraper_resume_eq
    by (intro runFullPipeline_ok) (simp_all add: task_ok_def spawned_by_def)
qed

lemma step_task_ok:
  assumes "target e = Some t" and "tasks w t = Some k" and "task_ok t k w"
    and "tasks (snd (step validate e w)) t = Some k'"
  shows "task_ok t k' (snd (step validate e w))"
proof (cases e)
  case (Db_settled t' failure)
  then show ?thesis
    using assms
    by (cases k)
       (auto simp: db_settled_def startScraper_resume_ok resume_update_enriching_ok
          resume_update_processing_ok finally_resume_frame updateSchedulerConfig_resume_frame)
next
  case (Child_stdout t' chunk)
  then show ?thesis
    using assms on_stdout_frame(2) [of t chunk w] on_stdout_idle [of w t chunk]
      frameD(4) [OF on_stdout_frame(1), of w _ t chunk]
    by (cases k) (auto simp: on_stdout_frame(3) task_ok_def)
next
  case (Child_stderr t' chunk)
  then show ?thesis
    using assms on_stderr_frame(2) [of t chunk w] on_stderr_idle [of w t chunk]
      frameD(4) [OF on_stderr_frame(1), of w _ t chunk]
    by (cases k) (auto simp: on_stderr_frame(3) task_ok_def)
next
  case (Child_close t' code)
  then show ?thesis
    using assms on_close_idle [of w t code]
    by (cases k) (auto simp: on_close_def resume_command_ok)
next
  case (Child_error t' message)
  then show ?thesis
    using assms on_error_ok [of w t k message k'] by simp
qed (insert assms, simp_all)

lemma step_idle_target:
  "target e = Some t \<Longrightarrow> tasks w t = None \<Longrightarrow> step validate e w = (Done, w)"
  by (cases e)
     (simp_all add: db_settled_idle on_stdout_idle on_stderr_idle on_close_idle on_error_idle)

lemma task_ok_frame:
  "frame t w w' \<Longrightarrow> u \<noteq> t \<Longrightarrow> task_ok u k w \<Longrightarrow> task_ok u k w'"
  by (auto simp: task_ok_def frame_def split: option.splits cont.splits)

lemma task_ok_same:
  "spawned w' = spawned w \<Longrightarrow> runs w' = runs w \<Longrightarrow> task_ok u k w' = task_ok u k w"
  by (cases k) (simp_all add: task_ok_def spawned_by_def)

lemma step_consistent:
  assumes "consistent w"
  shows "consistent (snd (step validate e w))"
proof -
  let ?w' = "snd (step validate e w)"
  from assms have c1: "\<And>u k. tasks w u = Some k \<Longrightarrow> u < nextTid w \<and> task_ok u k w"
    and c2: "\<And>u. nextTid w \<le> u \<Longrightarrow> spawned_by u w = []"
    by (simp_all add: consistent_def)
  have c3: "\<And>u. nextTid w \<le> u \<Longrightarrow> tasks w u = None"
    using c1 by (metis not_less option.exhaust)
  have mono: "nextTid w \<le> nextTid ?w'"
    by (rule step_nextTid)
  have second: "spawned_by u ?w' = []" if "nextTid ?w' \<le> u" for u
  proof (cases "target e = Some u")
    case True
    from that mono have "tasks w u = None"
      using c3 by simp
    then have "?w' = w"
      using True step_idle_target by simp
    then show ?thesis
      using that mono c2 by simp
  next
    case False
    then show ?thesis
      using step_other_spawned [of e u validate w] that mono c2 by simp
  qed
  have first: "u < nextTid ?w' \<and> task_ok u k' ?w'" if task: "tasks ?w' u = Some k'" for u k'
  proof (cases "target e")
    case (Some t)
    then have fr: "frame t w ?w'"
      by (rule step_targeted_frame)
    show ?thesis
    proof (cases "u = t")
      case True
      have "tasks w t \<noteq> None"
      proof
        assume none: "tasks w t = None"
        then have "?w' = w"
          using Some step_idle_target by simp
        then show False
          using task True none by simp
      qed
      then obtain k where k: "tasks w t = Some k"
        by auto
      then show ?thesis
        using c1 [OF k] step_task_ok [OF Some k _ task [unfolded True]] frameD(1) [OF fr] True
        by simp
    next
      case False
      then have "tasks w u = Some k'"
        using frameD(2) [OF fr, of u] task by simp
      then show ?thesis
        using c1 [of u k'] frameD(1) [OF fr] task_ok_frame [OF fr False] by simp
    qed
  next
    case None
    have same: "task_ok u k' ?w' = task_ok u k' w"
      using step_untargeted(1,2) [OF None] by (rule task_ok_same)
    have sp: "spawned_by (nextTid w) ?w' = spawned_by (nextTid w) w"
      using step_untargeted(1) [OF None, of validate w] by (simp add: spawned_by_def)
    consider (same) "tasks ?w' = tasks w" "nextTid ?w' = nextTid w"
      | (start) trigger where "tasks ?w' = (tasks w)(nextTid w \<mapsto> K_create trigger)"
          "nextTid ?w' = Suc (nextTid w)"
      | (upsert) en expr where "tasks ?w' = (tasks w)(nextTid w \<mapsto> K_upsert en expr)"
          "nextTid ?w' = Suc (nextTid w)"
      using step_untargeted_tasks [OF None, of validate w] by auto
    then show ?thesis
    proof cases
      case same
      then show ?thesis
        using task c1 [of u k'] \<open>task_ok u k' ?w' = task_ok u k' w\<close> by simp
    next
      case start
      show ?thesis
      proof (cases "u = nextTid w")
        case True
        then show ?thesis
          using task start c2 [of u] sp by (auto simp: task_ok_def)
      next
        case False
        then show ?thesis
          using task start c1 [of u k'] same by simp
      qed
    next
      case upsert
      show ?thesis
      proof (cases "u = nextTid w")
        case True
        then show ?thesis
          using task upsert c2 [of u] sp by (auto simp: task_ok_def)
      next
        case False
        then show ?thesis
          using task upsert c1 [of u k'] same by simp
      qed
    qed
  qed
  show ?thesis
    unfolding consistent_def using first second by blast
qed

lemma consistent_initial: "consistent initial"
  by (simp add: consistent_def initial_def spawned_by_def)

lemma exec_consistent:
  "consistent w \<Longrightarrow> consistent (exec validate es w)"
  by (induction es arbitrary: w) (simp_all add: step_consistent)

lemma exec_keeps_runs:
  "runs w r \<noteq> None \<Longrightarrow> runs (exec validate es w) r \<noteq> None"
proof (induction es arbitrary: w)
  case Nil
  then show ?case by simp
next
  case (Cons e es)
  have "runs (snd (step validate e w)) r \<noteq> None"
    using Cons.prems by (rule step_keeps_runs)
  then have "runs (exec validate es (snd (step validate e w))) r \<noteq> None"
    by (rule Cons.IH)
  then show ?case by simp
qed

lemma exec_nextTid:
  "nextTid w \<le> nextTid (exec validate es w)"
proof (induction es arbitrary: w)
  case Nil
  show ?case by simp
next
  case (Cons e es)
  show ?case
    using step_nextTid [of w validate e] Cons [of "snd (step validate e w)"] by simp
qed

lemma exec_keeps_command:
  assumes "tasks w tid = Some (K_command st runId out)" and "tid < nextTid w"
    and "\<forall>e \<in> set es. \<not> child_ends tid e"
  shows "\<exists>out'. tasks (exec validate es w) tid = Some (K_command st runId out')"
  using assms
proof (induction es arbitrary: w out)
  case Nil
  then show ?case by simp
next
  case (Cons e es)
  from Cons.prems obtain out1
    where "tasks (snd (step validate e w)) tid = Some (K_command st runId out1)"
    using step_keeps_command [of w tid st runId out e validate] by auto
  moreover have "tid < nextTid (snd (step validate e w))"
    using Cons.prems(2) step_nextTid [of w validate e] by simp
  ultimately show ?case
    using Cons.IH [of "snd (step validate e w)" out1] Cons.prems(3) by simp
qed

lemma exec_keeps_final:
  assumes "tasks w tid = Some (K_final runId d)" and "tid < nextTid w"
    and "\<forall>e \<in> set es. \<not> db_settles tid e"
  shows "tasks (exec validate es w) tid = Some (K_final runId d)"
  using assms
proof (induction es arbitrary: w)
  case Nil
  then show ?case by simp
next
  case (Cons e es)
  have "tasks (snd (step validate e w)) tid = Some (K_final runId d)"
    using Cons.prems step_keeps_final [of w tid runId d e validate] by simp
  moreover have "tid < nextTid (snd (step validate e w))"
    using Cons.prems(2) step_nextTid [of w validate e] by simp
  ultimately show ?case
    using Cons.IH [of "snd (step validate e w)"] Cons.prems(3) by simp
qed

lemma exec_after_try:
  assumes "tid < nextTid w" and "final_data tid w \<noteq> None \<or> tasks w tid = None"
  shows "spawned_by tid (exec validate es w) = spawned_by tid w"
  using assms
proof (induction es arbitrary: w)
  case Nil
  then show ?case by simp
next
  case (Cons e es)
  have "tid < nextTid (snd (step validate e w))"
    using Cons.prems(1) step_nextTid [of w validate e] by simp
  then show ?case
    using Cons.IH [of "snd (step validate e w)"] step_after_try [OF Cons.prems, of validate e]
    by simp
qed

section \<open>When a stage ends\<close>

lemma child_end_resume:
  assumes "tasks w tid = Some (K_command st runId out)" and "child_ends tid e"
    and "fst (step validate e w) = Done"
  shows "\<exists>w0. snd (step validate e w) = resume_command tid st runId (exit_code e) (concat out) w0
          \<and> tasks w0 = tasks w \<and> spawned w0 = spawned w \<and> runs w0 = runs w
          \<and> nextTid w0 = nextTid w \<and> abortRequested w0 = abortRequested w
          \<and> outputBuffer w0 = outputBuffer w \<and> now w0 = now w
          \<and> pipelineStep w0 = pipelineStep w"
proof (cases e)
  case (Child_close t code)
  then show ?thesis
    using assms by (intro exI [of _ w]) (simp add: on_close_def)
next
  case (Child_error t message)
  let ?b = "broadcast (event_of Stderr (''Process error: '' @ message) w) w"
  have "fst ?b = None"
    using assms Child_error by (simp add: on_error_def split: prod.splits option.splits)
  then have "snd (step validate e w) = resume_command tid st runId (exit_code e) (concat out) (snd ?b)"
    using assms Child_error on_error_command [of w tid st runId out message] by simp
  then show ?thesis
    by (intro exI [of _ "snd ?b"]) (simp add: broadcast_eq)
qed (use assms in simp_all)

lemma final_record_fields [simp]:
  "d_status (final_record s m w) = s"
  "d_errorMessage (final_record s m w) = m"
  "d_completedAt (final_record s m w) = now w"
  "d_output (final_record s m w) = concat (outputBuffer w)"
  by (simp_all add: final_record_def Let_def)

lemma final_data_finally_begin [simp]:
  "final_data tid (finally_begin tid runId s m w) = Some (final_record s m w)"
  by (simp add: final_data_def finally_begin_def)

lemma final_data_task:
  "final_data tid w = Some d \<Longrightarrow> \<exists>runId. tasks w tid = Some (K_final runId d)"
  by (auto simp: final_data_def split: option.splits cont.splits)

lemma finally_resume_persists:
  "runs w runId = Some r \<Longrightarrow>
     runs (snd (finally_resume tid runId d None w)) runId =
       Some (r\<lparr>status := d_status d, completedAt := Some (d_completedAt d),
               run_output := Some (d_output d), errorMessage := d_errorMessage d,
               sellersProcessed := d_sellersProcessed d,
               productsScraped := d_productsScraped d\<rparr>)"
  by (simp add: finally_resume_def update_run_def broadcast_eq Let_def split: option.split)



text \<open>What follows once a reachable task has entered its \<^verbatim>\<open>finally\<close> block.\<close>

lemma after_finally_begin:
  assumes reach: "tasks (exec validate es initial) tid = Some (K_command st runId out)"
    and w1: "w1 = finally_begin tid runId s m w0"
    and same: "tasks w0 = tasks (exec validate es initial)" "spawned w0 = spawned (exec validate es initial)"
      "runs w0 = runs (exec validate es initial)" "nextTid w0 = nextTid (exec validate es initial)"
  shows "spawned_by tid (exec validate es' w1) = spawns_so_far (K_command st runId out)"
    and "(\<forall>e \<in> set es'. \<not> db_settles tid e) \<Longrightarrow>
           \<exists>r. runs (exec validate es' w1) runId = Some r
             \<and> runs (snd (step validate (Db_settled tid None) (exec validate es' w1))) runId =
                 Some (r\<lparr>status := s, completedAt := Some (now w0),
                        run_output := Some (concat (outputBuffer w0)), errorMessage := m,
                        sellersProcessed := d_sellersProcessed (final_record s m w0),
                        productsScraped := d_productsScraped (final_record s m w0)\<rparr>)"
proof -
  let ?w = "exec validate es initial"
  have cons: "consistent ?w"
    by (simp add: exec_consistent consistent_initial)
  then have lt: "tid < nextTid ?w" and ok: "task_ok tid (K_command st runId out) ?w"
    using reach by (simp_all add: consistent_def)
  have lt1: "tid < nextTid w1"
    using lt w1 same by (simp add: finally_begin_def)
  have fin: "tasks w1 tid = Some (K_final runId (final_record s m w0))"
    using w1 by (simp add: finally_begin_def)
  have "spawned_by tid (exec validate es' w1) = spawned_by tid w1"
    using lt1 fin by (intro exec_after_try) (simp_all add: final_data_def)
  also have "\<dots> = spawned_by tid ?w"
    using w1 same by (simp add: finally_begin_def spawned_by_def)
  also have "\<dots> = spawns_so_far (K_command st runId out)"
    using ok by (simp add: task_ok_def)
  finally show "spawned_by tid (exec validate es' w1) = spawns_so_far (K_command st runId out)" .
  show "\<exists>r. runs (exec validate es' w1) runId = Some r
             \<and> runs (snd (step validate (Db_settled tid None) (exec validate es' w1))) runId =
                 Some (r\<lparr>status := s, completedAt := Some (now w0),
                        run_output := Some (concat (outputBuffer w0)), errorMessage := m,
                        sellersProcessed := d_sellersProcessed (final_record s m w0),
                        productsScraped := d_productsScraped (final_record s m w0)\<rparr>)"
    if quiet: "\<forall>e \<in> set es'. \<not> db_settles tid e"
  proof -
    have "runs w1 runId \<noteq> None"
      using ok w1 same by (simp add: task_ok_def finally_begin_def)
    then have "runs (exec validate es' w1) runId \<noteq> None"
      by (rule exec_keeps_runs)
    then obtain r where r: "runs (exec validate es' w1) runId = Some r"
      by auto
    have fin': "tasks (exec validate es' w1) tid = Some (K_final runId (final_record s m w0))"
      using fin lt1 quiet by (rule exec_keeps_final)
    show ?thesis
      using r fin' finally_resume_persists [OF r, of tid "final_record s m w0"]
      by (simp add: db_settled_def)
  qed
qed

section \<open>Authentication required\<close>

lemmas eval_defs =
  startScraper_def startScraper_resume_def runFullPipeline_def runCommand_def
  broadcast_def event_of_def isRunning_def db_settled_def initial_def Let_def
  on_stdout_def on_stderr_def on_close_def on_error_def resume_command_def resume_scrape_def
  resume_enrich_def resume_process_def resume_update_enriching_def resume_update_processing_def
  update_run_def finally_begin_def catch_block_def stopScraper_def



section \<open>Enrichment failure\<close>



section \<open>Statistics parsed from the output\<close>

lemma decimal_value_snoc:
  "decimal_value (ds @ [c]) = 10 * decimal_value ds + digit_val c"
proof -
  have "(\<Sum>i<length ds. digit_val ((ds @ [c]) ! i) * 10 ^ (length ds - i))
      = (\<Sum>i<length ds. 10 * (digit_val (ds ! i) * 10 ^ (length ds - Suc i)))"
  proof (rule sum.cong)
    fix i assume "i \<in> {..<length ds}"
    then have i: "i < length ds" by simp
    then have "(10::nat) ^ (length ds - i) = 10 * 10 ^ (length ds - Suc i)"
      by (metis Suc_diff_Suc power_Suc)
    then show "digit_val ((ds @ [c]) ! i) * 10 ^ (length ds - i)
        = 10 * (digit_val (ds ! i) * 10 ^ (length ds - Suc i))"
      using i by (simp add: nth_append)
  qed simp
  then show ?thesis
    by (simp add: decimal_value_def sum_distrib_left)
qed

lemma digits_value_snoc:
  "digits_value (ds @ [c]) = 10 * digits_value ds + digit_val c"
  by (simp add: digits_value_def)

lemma digits_value_decimal_value:
  "digits_value ds = decimal_value ds"
proof (induction ds rule: rev_induct)
  case Nil
  show ?case by (simp add: digits_value_def decimal_value_def)
next
  case (snoc c ds)
  then show ?case by (simp only: digits_value_snoc decimal_value_snoc)
qed

lemma parseInt_decimal_value:
  "parseInt ds = to_double (decimal_value ds)"
  by (simp add: parseInt_def digits_value_decimal_value)

lemma to_double_exact:
  "m < 2 ^ 53 \<Longrightarrow> to_double m = Finite m"
  by (simp add: to_double_def)

lemma bit_length_eq:
  "2 ^ k \<le> m \<Longrightarrow> m < 2 ^ Suc k \<Longrightarrow> bit_length m = Suc k"
proof (induction k arbitrary: m)
  case 0
  then have "m = 1" by simp
  then show ?case
    by (simp add: bit_length.simps [of "Suc 0"] bit_length.simps [of 0])
next
  case (Suc k)
  have "2 ^ k \<le> m div 2" and "m div 2 < 2 ^ Suc k"
    using Suc.prems by simp_all
  then have "bit_length (m div 2) = Suc k"
    by (rule Suc.IH)
  moreover have "(0::nat) < 2 ^ Suc k"
    by simp
  then have "m \<noteq> 0"
    using Suc.prems(1) by linarith
  ultimately show ?case
    by (simp add: bit_length.simps [of m])
qed

text \<open>
  \<open>to_double\<close> is rounding to the nearest value with 53 significant bits, a tie going to
  the even significand.
\<close>

lemma bit_length_bounds:
  "m \<noteq> 0 \<Longrightarrow> 2 ^ (bit_length m - 1) \<le> m \<and> m < 2 ^ bit_length m"
proof (induction m rule: bit_length.induct)
  case (1 n)
  show ?case
  proof (cases "n div 2 = 0")
    case True
    then have "n = 1" using 1(2) by (simp add: div_eq_0_iff) 
    then show ?thesis
      by (simp add: bit_length.simps [of "Suc 0"] bit_length.simps [of 0])
  next
    case False
    then have ih: "2 ^ (bit_length (n div 2) - 1) \<le> n div 2 \<and> n div 2 < 2 ^ bit_length (n div 2)"
      using 1 by simp
    have pos: "bit_length (n div 2) \<noteq> 0"
      using False by (simp add: bit_length.simps [of "n div 2"])
    have bl: "bit_length n = Suc (bit_length (n div 2))"
      using 1(2) by (simp add: bit_length.simps [of n])
    have "2 * 2 ^ (bit_length (n div 2) - 1) \<le> n"
      using ih by linarith
    moreover have "2 * 2 ^ (bit_length (n div 2) - 1) = (2::nat) ^ bit_length (n div 2)"
      using pos by (cases "bit_length (n div 2)") simp_all
    moreover have "n < 2 * 2 ^ bit_length (n div 2)"
      using ih by linarith
    ultimately show ?thesis
      by (simp add: bl)
  qed
qed

lemma fits_53_bits_multiple:
  assumes "2 ^ (k + 52) \<le> d" and "d < 2 ^ (k + 53)"
  shows "fits_53_bits d \<longleftrightarrow> 2 ^ k dvd d"
proof -
  have "bit_length d = Suc (k + 52)"
    using assms by (intro bit_length_eq) (simp_all add: add.commute)
  then show ?thesis
    by (simp add: fits_53_bits_def)
qed

lemma no_multiple_between:
  fixes q :: nat
  assumes "q * p < d" and "d < (q + 1) * p"
  shows "\<not> p dvd d"
proof
  assume "p dvd d"
  then obtain c where d: "d = c * p"
    by (auto simp: dvd_def mult.commute)
  have "q < c"
    using assms(1) d by (metis mult_less_cancel2)
  moreover have "c < q + 1"
    using assms(2) d by (metis mult_less_cancel2)
  ultimately show False
    by simp
qed

lemma to_double_nearest:
  assumes "to_double m = Finite d"
  shows "fits_53_bits d" and "d < 2 ^ 1024"
    and "fits_53_bits d' \<Longrightarrow> \<bar>int d - int m\<bar> \<le> \<bar>int d' - int m\<bar>"
proof -
  have all: "fits_53_bits d \<and> d < 2 ^ 1024
      \<and> (fits_53_bits d' \<longrightarrow> \<bar>int d - int m\<bar> \<le> \<bar>int d' - int m\<bar>)"
  proof (cases "m < 2 ^ 53")
    case True
    then have d: "d = m"
      using assms by (simp add: to_double_def)
    have "bit_length m \<le> 53"
    proof (cases "m = 0")
      case True
      then show ?thesis by (simp add: bit_length.simps [of 0])
    next
      case False
      then have "(2::nat) ^ (bit_length m - 1) < 2 ^ 53"
        using bit_length_bounds [of m] True by linarith
      then have "bit_length m - 1 < 53"
        by (simp only: power_strict_increasing_iff) 
      then show ?thesis by simp
    qed
    then have "fits_53_bits m"
      by (simp add: fits_53_bits_def)
    moreover have "m < 2 ^ 1024"
      using True by (rule less_trans) simp
    ultimately show ?thesis
      using d by simp
  next
    case False
    define e where "e = bit_length m - 53"
    define q where "q = m div 2 ^ e"
    define r where "r = m mod 2 ^ e"
    define lo where "lo = q * 2 ^ e"
    define hi where "hi = (q + 1) * 2 ^ e"
    have m0: "m \<noteq> 0"
      using False by auto
    have "(2::nat) ^ 53 < 2 ^ bit_length m"
      using bit_length_bounds [OF m0] False by linarith
    then have "53 < bit_length m"
      by (simp only: power_strict_increasing_iff)
    then have n: "bit_length m = Suc (e + 52)"
      by (simp add: e_def)
    have lower: "2 ^ (e + 52) \<le> m" and upper: "m < 2 ^ (e + 53)"
      using bit_length_bounds [OF m0] n by (simp_all add: add.commute)
    have m: "m = lo + r"
      unfolding lo_def q_def r_def by (rule div_mult_mod_eq [symmetric])
    have r: "r < 2 ^ e"
      by (simp add: r_def)
    have "2 ^ 52 * 2 ^ e \<le> m"
      using lower by (simp add: power_add mult.commute)
    then have q_lo: "2 ^ 52 \<le> q"
      unfolding q_def by (simp add: less_eq_div_iff_mult_less_eq)
    have "m < 2 ^ 53 * 2 ^ e"
      using upper by (simp add: power_add mult.commute)
    then have q_hi: "q < 2 ^ 53"
      unfolding q_def by (simp add: less_mult_imp_div_less)
    have lo_lower: "2 ^ (e + 52) \<le> lo"
      using q_lo by (simp add: lo_def power_add mult.commute)
    have lo_upper: "lo < 2 ^ (e + 53)"
      using m upper by simp
    have fits_lo: "fits_53_bits lo"
      using fits_53_bits_multiple [OF lo_lower lo_upper] by (simp add: lo_def)
    have hi_le: "hi \<le> 2 ^ (e + 53)"
      using q_hi by (simp add: hi_def power_add mult.commute)
    have fits_hi: "fits_53_bits hi"
    proof (cases "hi = 2 ^ (e + 53)")
      case True
      have "bit_length hi = Suc (e + 53)"
        unfolding True by (rule bit_length_eq) simp_all
      then have "bit_length hi - 53 = Suc e"
        by simp
      moreover have "(2::nat) ^ Suc e dvd 2 ^ (e + 53)"
        by (rule le_imp_power_dvd) simp
      ultimately show ?thesis
        by (simp only: fits_53_bits_def True)
    next
      case False
      then have "hi < 2 ^ (e + 53)"
        using hi_le by simp
      moreover have "2 ^ (e + 52) \<le> hi"
        using lo_lower by (simp add: lo_def hi_def)
      ultimately show ?thesis
        using fits_53_bits_multiple [of e hi] by (simp add: hi_def)
    qed
    have between: "d' \<le> lo \<or> hi \<le> d'" if f: "fits_53_bits d'"
    proof (rule ccontr)
      assume "\<not> (d' \<le> lo \<or> hi \<le> d')"
      then have a: "lo < d'" and b: "d' < hi"
        by simp_all
      have "2 ^ (e + 52) \<le> d'" and "d' < 2 ^ (e + 53)"
        using a b lo_lower hi_le by simp_all
      then have "2 ^ e dvd d'"
        using fits_53_bits_multiple [of e d'] f by simp
      moreover have "\<not> 2 ^ e dvd d'"
        using a b unfolding lo_def hi_def by (rule no_multiple_between)
      ultimately show False by simp
    qed
    have hi: "hi = lo + 2 ^ e"
      by (simp add: hi_def lo_def)
    let ?down = "2 * r < 2 ^ e \<or> (2 * r = 2 ^ e \<and> even q)"
    have res: "to_double m = (let rounded = (if ?down then lo else hi)
        in if rounded < 2 ^ 1024 then Finite rounded else Infinity)"
      using False by (simp add: to_double_def Let_def e_def q_def r_def lo_def hi_def)
    then have d: "d = (if ?down then lo else hi)" and small: "d < 2 ^ 1024"
      using assms by (simp_all add: Let_def split: if_splits)
    have fits: "fits_53_bits d"
      using d fits_lo fits_hi by simp
    define p where "p = (2::nat) ^ e"
    have near: "\<bar>int d - int m\<bar> \<le> \<bar>int d' - int m\<bar>" if f: "fits_53_bits d'"
    proof (cases ?down)
      case True
      then have "d = lo" and "2 * r \<le> p"
        using d by (auto simp: p_def)
      moreover have "d' \<le> lo \<or> lo + p \<le> d'"
        using between [OF f] hi by (simp add: p_def)
      ultimately show ?thesis
        using m by arith
    next
      case False
      then have "d = lo + p" and "p \<le> 2 * r"
        using d hi by (auto simp: p_def)
      moreover have "d' \<le> lo \<or> lo + p \<le> d'"
        using between [OF f] hi by (simp add: p_def)
      moreover have "r < p"
        using r by (simp add: p_def)
      ultimately show ?thesis
        using m by arith
    qed
    show ?thesis
      using fits small near by simp
  qed
  show "fits_53_bits d" and "d < 2 ^ 1024"
    and "fits_53_bits d' \<Longrightarrow> \<bar>int d - int m\<bar> \<le> \<bar>int d' - int m\<bar>"
    using all by simp_all
qed

lemma to_double_ties_to_even:
  assumes "2 ^ 53 \<le> m" and "to_double m = Finite d"
    and "2 * (m mod 2 ^ (bit_length m - 53)) = 2 ^ (bit_length m - 53)"
  shows "even (d div 2 ^ (bit_length m - 53))"
proof (cases "even (m div 2 ^ (bit_length m - 53))")
  case True
  then have "d = m div 2 ^ (bit_length m - 53) * 2 ^ (bit_length m - 53)"
    using assms by (simp add: to_double_def Let_def split: if_splits)
  then show ?thesis
    using True by simp
next
  case False
  then have "d = (m div 2 ^ (bit_length m - 53) + 1) * 2 ^ (bit_length m - 53)"
    using assms by (simp add: to_double_def Let_def split: if_splits)
  then have "d div 2 ^ (bit_length m - 53) = m div 2 ^ (bit_length m - 53) + 1"
    by simp
  then show ?thesis
    using False by simp
qed

lemma digit_val_char_of:
  "d < 10 \<Longrightarrow> digit_val (char_of (48 + d)) = d"
  by (simp add: digit_val_def)

lemma digits_value_show_nat:
  "digits_value (show_nat n) = n"
proof (induction n rule: show_nat.induct)
  case (1 n)
  show ?case
  proof (cases "n < 10")
    case True
    then show ?thesis
      by (subst show_nat.simps) (simp add: digits_value_def digit_val_char_of)
  next
    case False
    then have "digits_value (show_nat n) = 10 * digits_value (show_nat (n div 10)) + n mod 10"
      by (subst show_nat.simps) (simp add: digits_value_snoc digit_val_char_of)
    then show ?thesis
      using 1 False by simp
  qed
qed

lemma regex_at_iff:
  assumes "post = p # ps" and "\<not> is_digit p"
  shows "regex_at pre post s = Some ds
     \<longleftrightarrow> ds \<noteq> [] \<and> list_all is_digit ds \<and> prefix (pre @ ds @ post) s"
proof
  assume "regex_at pre post s = Some ds"
  then have pre: "prefix pre s" and ds: "ds = takeWhile is_digit (drop (length pre) s)"
    and ne: "ds \<noteq> []" and post: "prefix post (dropWhile is_digit (drop (length pre) s))"
    by (auto simp: regex_at_def Let_def split: if_splits)
  from pre obtain t where s: "s = pre @ t"
    by (auto simp: prefix_def)
  from post obtain rest where "dropWhile is_digit t = post @ rest"
    using s by (auto simp: prefix_def)
  then have "t = ds @ post @ rest"
    using ds s by (metis append_eq_conv_conj drop_all takeWhile_dropWhile_id append_eq_append_conv
        same_append_eq self_append_conv2 length_append drop_append order_refl diff_self_eq_0 drop_0)
  then show "ds \<noteq> [] \<and> list_all is_digit ds \<and> prefix (pre @ ds @ post) s"
    using ne ds s by (auto simp: prefix_def list_all_iff dest: set_takeWhileD)
next
  assume r: "ds \<noteq> [] \<and> list_all is_digit ds \<and> prefix (pre @ ds @ post) s"
  then obtain rest where s: "s = pre @ ds @ (p # ps) @ rest"
    using assms(1) by (auto simp: prefix_def)
  have tw: "takeWhile is_digit (ds @ (p # ps) @ rest) = ds"
    using r assms(2) by (simp add: list_all_iff)
  have dw: "dropWhile is_digit (ds @ (p # ps) @ rest) = (p # ps) @ rest"
    using r assms(2) by (simp add: list_all_iff)
  show "regex_at pre post s = Some ds"
    using r tw dw by (simp add: regex_at_def s assms(1) Let_def)
qed


lemma occurs_at_Cons:
  "occurs_at pre post (c # cs) i ds \<longleftrightarrow>
     (case i of 0 \<Rightarrow> ds \<noteq> [] \<and> list_all is_digit ds \<and> prefix (pre @ ds @ post) (c # cs)
      | Suc j \<Rightarrow> occurs_at pre post cs j ds)"
  by (cases i) (simp_all add: occurs_at_def)

lemma regex_match_None:
  assumes "post = p # ps" and "\<not> is_digit p"
  shows "regex_match pre post s = None \<longleftrightarrow> (\<forall>i ds. \<not> occurs_at pre post s i ds)"
proof (induction s)
  case Nil
  have "regex_at pre post [] = None"
    using assms by (simp add: regex_at_def Let_def)
  moreover have "\<not> occurs_at pre post [] i ds" for i ds
    using assms by (auto simp: occurs_at_def)
  ultimately show ?case by simp
next
  case (Cons c cs)
  show ?case
  proof (cases "regex_at pre post (c # cs)")
    case None
    then have no0: "\<not> occurs_at pre post (c # cs) 0 ds" for ds
      using regex_at_iff [OF assms, of pre "c # cs" ds] by (simp add: occurs_at_Cons)
    have "(\<forall>i ds. \<not> occurs_at pre post (c # cs) i ds) \<longleftrightarrow> (\<forall>j ds. \<not> occurs_at pre post cs j ds)"
    proof
      assume a: "\<forall>i ds. \<not> occurs_at pre post (c # cs) i ds"
      show "\<forall>j ds. \<not> occurs_at pre post cs j ds"
      proof (intro allI)
        fix j ds
        from a have "\<not> occurs_at pre post (c # cs) (Suc j) ds" by blast
        then show "\<not> occurs_at pre post cs j ds" by (simp add: occurs_at_Cons)
      qed
    next
      assume a: "\<forall>j ds. \<not> occurs_at pre post cs j ds"
      show "\<forall>i ds. \<not> occurs_at pre post (c # cs) i ds"
      proof (intro allI)
        fix i ds
        show "\<not> occurs_at pre post (c # cs) i ds"
          using a no0 by (cases i) (simp_all add: occurs_at_Cons)
      qed
    qed
    then show ?thesis
      using None Cons by simp
  next
    case (Some g)
    then have "occurs_at pre post (c # cs) 0 g"
      using regex_at_iff [OF assms, of pre "c # cs" g] by (simp add: occurs_at_Cons)
    then show ?thesis
      using Some by auto
  qed
qed

lemma regex_match_first:
  assumes "post = p # ps" and "\<not> is_digit p"
    and "occurs_at pre post s i ds" and "\<forall>j<i. \<forall>ds'. \<not> occurs_at pre post s j ds'"
  shows "regex_match pre post s = Some ds"
  using assms(3,4)
proof (induction s arbitrary: i)
  case Nil
  then show ?case
    using assms(1) by (auto simp: occurs_at_def)
next
  case (Cons c cs)
  show ?case
  proof (cases i)
    case 0
    then have "regex_at pre post (c # cs) = Some ds"
      using Cons.prems(1) regex_at_iff [OF assms(1,2), of pre "c # cs" ds]
      by (simp add: occurs_at_Cons)
    then show ?thesis by simp
  next
    case (Suc j)
    have "regex_at pre post (c # cs) = None"
    proof (cases "regex_at pre post (c # cs)")
      case (Some g)
      then have "occurs_at pre post (c # cs) 0 g"
        using regex_at_iff [OF assms(1,2), of pre "c # cs" g] by (simp add: occurs_at_Cons)
      then show ?thesis
        using Cons.prems(2) Suc by auto
    qed simp
    moreover have "occurs_at pre post cs j ds"
      using Cons.prems(1) Suc by (simp add: occurs_at_Cons)
    moreover have "\<forall>j'<j. \<forall>ds'. \<not> occurs_at pre post cs j' ds'"
    proof (intro allI impI)
      fix j' ds' assume "j' < j"
      then have "\<not> occurs_at pre post (c # cs) (Suc j') ds'"
        using Cons.prems(2) Suc by simp
      then show "\<not> occurs_at pre post cs j' ds'"
        by (simp add: occurs_at_Cons)
    qed
    ultimately show ?thesis
      using Cons.IH [of j] by simp
  qed
qed

lemma space_not_digit: "\<not> is_digit (CHR '' '')"
  by (simp add: is_digit_def)

lemma occurs_at_regex_at:
  assumes "post = p # ps" and "\<not> is_digit p" and "i \<le> length s"
  shows "occurs_at pre post s i ds \<longleftrightarrow> regex_at pre post (drop i s) = Some ds"
  using assms(3) regex_at_iff [OF assms(1,2), of pre "drop i s" ds]
  by (simp add: occurs_at_def)

lemma to_double_examples:
  "to_double 9007199254740993 = Finite 9007199254740992"
  "to_double 99999999999999999999999 = Finite 99999999999999991611392"
proof -
  have "bit_length 9007199254740993 = Suc 53"
    by (rule bit_length_eq) simp_all
  then show "to_double 9007199254740993 = Finite 9007199254740992"
    by (simp add: to_double_def Let_def)
  have "bit_length 99999999999999999999999 = Suc 76"
    by (rule bit_length_eq) simp_all
  then show "to_double 99999999999999999999999 = Finite 99999999999999991611392"
    by (simp add: to_double_def Let_def)
qed

text \<open>
  C8. The \<^verbatim>\<open>finally\<close> block never raises while it parses: it always ends up suspended on
  the update, with the data \<open>final_record\<close> built. A counter is 0 when its pattern occurs
  nowhere in the joined buffer. Otherwise it is the double nearest to the number the digits
  of the leftmost occurrence denote (\<open>to_double\<close>), which is that number itself when it is
  below \<open>2 ^ 53\<close>.
\<close>

theorem stats_parsed_from_output:
  "final_data tid (finally_begin tid runId s m w) = Some (final_record s m w)
   \<and> ((\<forall>i ds. \<not> occurs_at [] '' seller(s)'' (concat (outputBuffer w)) i ds) \<longrightarrow>
        d_sellersProcessed (final_record s m w) = Finite 0)
   \<and> ((\<forall>i ds. \<not> occurs_at ''Saved '' '' products'' (concat (outputBuffer w)) i ds) \<longrightarrow>
        d_productsScraped (final_record s m w) = Finite 0)
   \<and> (occurs_at [] '' seller(s)'' (concat (outputBuffer w)) i ds
        \<and> (\<forall>j<i. \<forall>ds'. \<not> occurs_at [] '' seller(s)'' (concat (outputBuffer w)) j ds') \<longrightarrow>
        d_sellersProcessed (final_record s m w) = to_double (decimal_value ds)
        \<and> (decimal_value ds < 2 ^ 53 \<longrightarrow>
             d_sellersProcessed (final_record s m w) = Finite (decimal_value ds)))
   \<and> (occurs_at ''Saved '' '' products'' (concat (outputBuffer w)) i' ds'
        \<and> (\<forall>j<i'. \<forall>ds''. \<not> occurs_at ''Saved '' '' products'' (concat (outputBuffer w)) j ds'') \<longrightarrow>
        d_productsScraped (final_record s m w) = to_double (decimal_value ds')
        \<and> (decimal_value ds' < 2 ^ 53 \<longrightarrow>
             d_productsScraped (final_record s m w) = Finite (decimal_value ds')))"
proof (intro conjI impI)
  show "final_data tid (finally_begin tid runId s m w) = Some (final_record s m w)"
    by simp
next
  assume "\<forall>i ds. \<not> occurs_at [] '' seller(s)'' (concat (outputBuffer w)) i ds"
  then have "regex_match [] '' seller(s)'' (concat (outputBuffer w)) = None"
    using regex_match_None [OF refl space_not_digit] by blast
  then show "d_sellersProcessed (final_record s m w) = Finite 0"
    by (simp add: final_record_def Let_def)
next
  assume "\<forall>i ds. \<not> occurs_at ''Saved '' '' products'' (concat (outputBuffer w)) i ds"
  then have "regex_match ''Saved '' '' products'' (concat (outputBuffer w)) = None"
    using regex_match_None [OF refl space_not_digit] by blast
  then show "d_productsScraped (final_record s m w) = Finite 0"
    by (simp add: final_record_def Let_def)
next
  assume "occurs_at [] '' seller(s)'' (concat (outputBuffer w)) i ds
        \<and> (\<forall>j<i. \<forall>ds'. \<not> occurs_at [] '' seller(s)'' (concat (outputBuffer w)) j ds')"
  then have "regex_match [] '' seller(s)'' (concat (outputBuffer w)) = Some ds"
    using regex_match_first [OF refl space_not_digit] by blast
  then show a: "d_sellersProcessed (final_record s m w) = to_double (decimal_value ds)"
    by (simp add: final_record_def Let_def parseInt_decimal_value)
  assume "decimal_value ds < 2 ^ 53"
  then show "d_sellersProcessed (final_record s m w) = Finite (decimal_value ds)"
    using a by (simp add: to_double_exact)
next
  assume "occurs_at ''Saved '' '' products'' (concat (outputBuffer w)) i' ds'
        \<and> (\<forall>j<i'. \<forall>ds''. \<not> occurs_at ''Saved '' '' products'' (concat (outputBuffer w)) j ds'')"
  then have "regex_match ''Saved '' '' products'' (concat (outputBuffer w)) = Some ds'"
    using regex_match_first [OF refl space_not_digit] by blast
  then show a: "d_productsScraped (final_record s m w) = to_double (decimal_value ds')"
    by (simp add: final_record_def Let_def parseInt_decimal_value)
  assume "decimal_value ds' < 2 ^ 53"
  then show "d_productsScraped (final_record s m w) = Finite (decimal_value ds')"
    using a by (simp add: to_double_exact)
qed

theorem stats_parsed_from_output_witness:
  "occurs_at [] '' seller(s)'' (concat (outputBuffer two_reports)) 0 ''7''
   \<and> occurs_at ''Saved '' '' products'' (concat (outputBuffer two_reports)) 24 ''42''
   \<and> decimal_value ''7'' = 7 \<and> decimal_value ''42'' = 42
   \<and> d_sellersProcessed (final_record COMPLETED None two_reports) = Finite 7
   \<and> d_productsScraped (final_record COMPLETED None two_reports) = Finite 42"
proof -
  have joined: "concat (outputBuffer two_reports)
      = ''7 seller(s) 9 seller(s) Saved 42 products Saved 1 products''"
    by (simp add: two_reports_def initial_def)
  have o1: "occurs_at [] '' seller(s)'' (concat (outputBuffer two_reports)) 0 ''7''"
    unfolding joined by (simp add: occurs_at_def is_digit_def)
  have o2: "occurs_at ''Saved '' '' products'' (concat (outputBuffer two_reports)) 24 ''42''"
    unfolding joined by (simp add: occurs_at_def is_digit_def)
  have f2: "\<forall>j<24. \<forall>ds''. \<not> occurs_at ''Saved '' '' products'' (concat (outputBuffer two_reports)) j ds''"
    unfolding joined
    by (simp add: occurs_at_regex_at [OF refl space_not_digit] regex_at_def
          eval_nat_numeral less_Suc_eq)
  have d1: "decimal_value ''7'' = 7" and d2: "decimal_value ''42'' = 42"
    by (simp_all add: digits_value_decimal_value [symmetric] digits_value_def digit_val_def)
  show ?thesis
    using stats_parsed_from_output [of 0 1 COMPLETED None two_reports 0 "''7''" 24 "''42''"]
      o1 o2 f2 d1 d2
    by (simp add: to_double_def)
qed

text \<open>
  The digits of the only report denote \<open>2 ^ 53 + 1\<close>, which no double is: the counter is
  \<open>2 ^ 53\<close>.
\<close>

theorem stats_rounded_beyond_53_bits:
  "occurs_at [] '' seller(s)'' (concat (outputBuffer big_report)) 0 ''9007199254740993''
   \<and> decimal_value ''9007199254740993'' = 9007199254740993
   \<and> d_sellersProcessed (final_record COMPLETED None big_report) = Finite 9007199254740992"
proof -
  have joined: "concat (outputBuffer big_report) = ''9007199254740993 seller(s)''"
    by (simp add: big_report_def initial_def)
  have o: "occurs_at [] '' seller(s)'' (concat (outputBuffer big_report)) 0 ''9007199254740993''"
    unfolding joined by (simp add: occurs_at_def is_digit_def)
  have d: "decimal_value ''9007199254740993'' = 9007199254740993"
    by (simp add: digits_value_decimal_value [symmetric] digits_value_def digit_val_def)
  have "regex_match [] '' seller(s)'' (concat (outputBuffer big_report)) = Some ''9007199254740993''"
    using regex_match_first [OF refl space_not_digit o] by simp
  then have "d_sellersProcessed (final_record COMPLETED None big_report) = to_double 9007199254740993"
    using d by (simp add: final_record_def Let_def parseInt_decimal_value)
  then show ?thesis
    using o d by (simp add: to_double_examples)
qed

section \<open>The scheduler\<close>

lemma cron_fire_none:
  "scheduledTask w = None \<Longrightarrow> cron_fire w = (Done, w)"
  by (simp add: cron_fire_def)

lemma cron_fire_stopped:
  "scheduledTask w = Some t \<Longrightarrow> task_stopped t \<Longrightarrow> cron_fire w = (Done, w)"
  by (simp add: cron_fire_def)

lemma exec_cron_fire_none:
  "scheduledTask w = None \<Longrightarrow> exec validate (replicate n Cron_fire) w = w"
  by (induction n) (simp_all add: cron_fire_none)

text \<open>
  C4, as the code has it. An update with an expression the checker rejects is not
  rejected: once the write is fulfilled the stored configuration is the requested one,
  \<open>enabled\<close> included; a timer installed before is stopped and forgotten, none is
  installed, and the timer never fires a run afterwards. Until the write is fulfilled the
  call changes neither the stored configuration nor the timer. \<^verbatim>\<open>startScheduler\<close> itself,
  given such an expression, stops the timer it finds and installs none.
\<close>

theorem invalid_cron_uninstalls_timer:
  assumes "\<not> validate expr"
  shows "(tasks w tid = Some (K_upsert en expr) \<longrightarrow>
            fst (step validate (Db_settled tid None) w) = Done
          \<and> schedulerConfig (snd (step validate (Db_settled tid None) w))
              = Some \<lparr>cfg_id = 1, enabled = en, cronExpr = expr\<rparr>
          \<and> scheduledTask (snd (step validate (Db_settled tid None) w)) = None
          \<and> exec validate (replicate n Cron_fire) (snd (step validate (Db_settled tid None) w))
              = snd (step validate (Db_settled tid None) w))
     \<and> tasks (snd (step validate (Call_updateSchedulerConfig en expr) w)) (nextTid w)
          = Some (K_upsert en expr)
     \<and> scheduledTask (snd (step validate (Call_updateSchedulerConfig en expr) w)) = scheduledTask w
     \<and> schedulerConfig (snd (step validate (Call_updateSchedulerConfig en expr) w)) = schedulerConfig w
     \<and> scheduledTask (startScheduler validate expr w)
          = map_option (\<lambda>t. t\<lparr>task_stopped := True\<rparr>) (scheduledTask w)
     \<and> step validate Cron_fire (startScheduler validate expr w)
          = (Done, startScheduler validate expr w)"
proof (intro conjI impI)
  assume task: "tasks w tid = Some (K_upsert en expr)"
  let ?w' = "snd (step validate (Db_settled tid None) w)"
  show "fst (step validate (Db_settled tid None) w) = Done"
    using task assms by (simp add: db_settled_def updateSchedulerConfig_resume_def Let_def)
  show "schedulerConfig ?w' = Some \<lparr>cfg_id = 1, enabled = en, cronExpr = expr\<rparr>"
    using task assms
    by (simp add: db_settled_def updateSchedulerConfig_resume_def stopScheduler_def Let_def
          split: option.split)
  show none: "scheduledTask ?w' = None"
    using task assms
    by (simp add: db_settled_def updateSchedulerConfig_resume_def stopScheduler_def Let_def
          split: option.split)
  show "exec validate (replicate n Cron_fire) ?w' = ?w'"
    using none by (rule exec_cron_fire_none)
next
  show "tasks (snd (step validate (Call_updateSchedulerConfig en expr) w)) (nextTid w)
          = Some (K_upsert en expr)"
    by (simp add: updateSchedulerConfig_def)
  show "scheduledTask (snd (step validate (Call_updateSchedulerConfig en expr) w)) = scheduledTask w"
    by (simp add: updateSchedulerConfig_def)
  show "schedulerConfig (snd (step validate (Call_updateSchedulerConfig en expr) w)) = schedulerConfig w"
    by (simp add: updateSchedulerConfig_def)
  show st: "scheduledTask (startScheduler validate expr w)
          = map_option (\<lambda>t. t\<lparr>task_stopped := True\<rparr>) (scheduledTask w)"
    using assms by (simp add: startScheduler_def Let_def split: option.split)
  show "step validate Cron_fire (startScheduler validate expr w)
          = (Done, startScheduler validate expr w)"
    using st by (cases "scheduledTask w") (simp_all add: cron_fire_def)
qed

lemmas scheduler_defs =
  updateSchedulerConfig_def updateSchedulerConfig_resume_def startScheduler_def
  stopScheduler_def db_settled_def valid_twice_daily_def initial_def Let_def

theorem invalid_cron_uninstalls_timer_witness:
  "tasks (exec valid_twice_daily timer_installed initial) 2 = Some (K_upsert True ''every day'')
   \<and> scheduledTask (exec valid_twice_daily timer_installed initial)
       = Some \<lparr>task_expr = ''0 9,21 * * *'', task_stopped = False\<rparr>
   \<and> fst (step valid_twice_daily (Db_settled 2 None) (exec valid_twice_daily timer_installed initial)) = Done
   \<and> scheduledTask (snd (step valid_twice_daily (Db_settled 2 None)
        (exec valid_twice_daily timer_installed initial))) = None
   \<and> exec valid_twice_daily (replicate 3 Cron_fire)
        (snd (step valid_twice_daily (Db_settled 2 None) (exec valid_twice_daily timer_installed initial)))
       = snd (step valid_twice_daily (Db_settled 2 None) (exec valid_twice_daily timer_installed initial))"
proof -
  have invalid: "\<not> valid_twice_daily ''every day''"
    by (simp add: valid_twice_daily_def)
  have task: "tasks (exec valid_twice_daily timer_installed initial) 2
      = Some (K_upsert True ''every day'')"
    by (simp add: timer_installed_def scheduler_defs)
  have timer: "scheduledTask (exec valid_twice_daily timer_installed initial)
       = Some \<lparr>task_expr = ''0 9,21 * * *'', task_stopped = False\<rparr>"
    by (simp add: timer_installed_def scheduler_defs)
  show ?thesis
    using invalid_cron_uninstalls_timer [where validate = valid_twice_daily
        and expr = "''every day''" and w = "exec valid_twice_daily timer_installed initial"
        and tid = 2 and en = True and n = 3]
      invalid task timer
    by blast
qed

text \<open>
  C4 as stated fails: the flag is written as requested. The stored configuration is
  disabled; an update that enables the scheduler with an expression the checker rejects is
  not rejected, and the stored flag is \<open>True\<close> afterwards.
\<close>

theorem invalid_cron_still_enables:
  "valid_twice_daily ''every day'' = False
   \<and> map_option enabled (schedulerConfig (exec valid_twice_daily timer_installed initial))
       = Some False
   \<and> fst (step valid_twice_daily (Db_settled 2 None) (exec valid_twice_daily timer_installed initial)) = Done
   \<and> map_option enabled (schedulerConfig (snd (step valid_twice_daily (Db_settled 2 None)
        (exec valid_twice_daily timer_installed initial)))) = Some True"
  by (simp add: timer_installed_def scheduler_defs)

section \<open>A run with no other run beside it\<close>

lemma on_stdout_fields:
  "pipelineStep (snd (on_stdout t chunk w)) = pipelineStep w"
  "abortRequested (snd (on_stdout t chunk w)) = abortRequested w"
  by (simp_all add: on_stdout_def broadcast_eq Let_def split: goal_splits)

lemma on_stderr_fields:
  "pipelineStep (snd (on_stderr t chunk w)) = pipelineStep w"
  "abortRequested (snd (on_stderr t chunk w)) = abortRequested w"
  by (simp_all add: on_stderr_def broadcast_eq Let_def split: goal_splits)

lemma updateSchedulerConfig_resume_fields:
  "pipelineStep (snd (updateSchedulerConfig_resume validate t en expr failure w)) = pipelineStep w"
  "abortRequested (snd (updateSchedulerConfig_resume validate t en expr failure w)) = abortRequested w"
  by (simp_all add: updateSchedulerConfig_resume_def startScheduler_def stopScheduler_def Let_def
        split: goal_splits)

lemma alone_other:
  assumes "alone tid w" and "t \<noteq> tid"
  shows "tasks w t = None \<or> (\<exists>en expr. tasks w t = Some (K_upsert en expr))"
proof (cases "tasks w t")
  case None
  then show ?thesis by simp
next
  case (Some k)
  have "case tasks w t of None \<Rightarrow> True | Some (K_upsert en expr) \<Rightarrow> True | Some k \<Rightarrow> False"
    using assms by (simp add: alone_def)
  then show ?thesis
    using Some by (cases k) simp_all
qed

lemma alone_same:
  "alone tid w \<Longrightarrow> (\<And>t. t \<noteq> tid \<Longrightarrow> tasks w' t = tasks w t \<or> tasks w' t = None) \<Longrightarrow> alone tid w'"
  unfolding alone_def by (metis option.simps(4))

text \<open>
  While task \<open>tid\<close> waits for its child and no other run is in flight, no event but the end
  of the child changes the step, clears an abort request, or lets another run in.
\<close>

lemma step_alone:
  assumes al: "alone tid w" and task: "tasks w tid = Some (K_command st runId out)"
    and lt: "tid < nextTid w" and busy: "pipelineStep w \<noteq> IDLE"
    and e: "\<not> child_ends tid e"
  shows "alone tid (snd (step validate e w))"
    and "pipelineStep (snd (step validate e w)) = pipelineStep w"
    and "abortRequested w \<Longrightarrow> abortRequested (snd (step validate e w))"
proof -
  let ?w' = "snd (step validate e w)"
  have all: "alone tid ?w' \<and> pipelineStep ?w' = pipelineStep w
      \<and> (abortRequested w \<longrightarrow> abortRequested ?w')"
  proof (cases "target e")
    case None
    have "tasks ?w' = tasks w
        \<or> (\<exists>en expr. tasks ?w' = (tasks w)(nextTid w \<mapsto> K_upsert en expr))"
      using step_untargeted_tasks [OF None, where validate = validate and w = w] busy by auto
    then have "alone tid ?w'"
      using al lt by (auto simp: alone_def)
    then show ?thesis
      using step_untargeted(3,5) [OF None, where validate = validate and w = w] by simp
  next
    case (Some t)
    show ?thesis
    proof (cases "t = tid")
      case True
      have "awaits_child (tasks w tid)"
        using task by simp
      then show ?thesis
        using Some True e al task
        by (cases e)
           (simp_all add: db_settled_idle on_stdout_fields on_stderr_fields
              alone_same [OF al] frameD(2) [OF on_stdout_frame(1)]
              frameD(2) [OF on_stderr_frame(1)])
    next
      case False
      from alone_other [OF al False] show ?thesis
      proof
        assume "tasks w t = None"
        then have "step validate e w = (Done, w)"
          using Some by (rule step_idle_target [rotated])
        then show ?thesis
          using al by simp
      next
        assume "\<exists>en expr. tasks w t = Some (K_upsert en expr)"
        then obtain en expr where up: "tasks w t = Some (K_upsert en expr)"
          by auto
        then have idle: "\<not> awaits_child (tasks w t)"
          by simp
        have fr: "frame t w ?w'"
          using Some by (rule step_targeted_frame)
        have "alone tid ?w'"
        proof (rule alone_same [OF al])
          fix u assume "u \<noteq> tid"
          show "tasks ?w' u = tasks w u \<or> tasks ?w' u = None"
          proof (cases "u = t")
            case True
            then show ?thesis
              using Some up idle
              by (cases e)
                 (simp_all add: db_settled_def updateSchedulerConfig_resume_frame
                    on_stdout_idle on_stderr_idle on_close_idle on_error_idle)
          next
            case False
            then show ?thesis
              using frameD(2) [OF fr] by simp
          qed
        qed
        moreover have "pipelineStep ?w' = pipelineStep w \<and> abortRequested ?w' = abortRequested w"
          using Some up idle
          by (cases e)
             (simp_all add: db_settled_def updateSchedulerConfig_resume_fields
                on_stdout_idle on_stderr_idle on_close_idle on_error_idle)
        ultimately show ?thesis
          by simp
      qed
    qed
  qed
  show "alone tid ?w'" and "pipelineStep ?w' = pipelineStep w"
    and "abortRequested w \<Longrightarrow> abortRequested ?w'"
    using all by simp_all
qed

lemma exec_alone:
  assumes "alone tid w" and "tasks w tid = Some (K_command st runId out)"
    and "tid < nextTid w" and "pipelineStep w \<noteq> IDLE"
    and "\<forall>e \<in> set es. \<not> child_ends tid e"
  shows "pipelineStep (exec validate es w) = pipelineStep w
     \<and> (abortRequested w \<longrightarrow> abortRequested (exec validate es w))
     \<and> spawned_by tid (exec validate es w) = spawned_by tid w"
  using assms
proof (induction es arbitrary: w out)
  case Nil
  show ?case by simp
next
  case (Cons e es)
  let ?w' = "snd (step validate e w)"
  have ne: "\<not> child_ends tid e"
    using Cons.prems(5) by simp
  obtain out1 where t1: "tasks ?w' tid = Some (K_command st runId out1)"
    using step_keeps_command [OF Cons.prems(2,3) ne, where validate = validate] by auto
  have lt1: "tid < nextTid ?w'"
    using Cons.prems(3) step_nextTid [of w validate e] by simp
  note sa = step_alone [OF Cons.prems(1,2,3,4) ne, where validate = validate]
  have sp: "spawned_by tid ?w' = spawned_by tid w"
  proof (cases "target e = Some tid")
    case False
    then show ?thesis by (rule step_other_spawned)
  next
    case True
    then show ?thesis
      using ne Cons.prems(2)
      by (cases e) (simp_all add: db_settled_idle on_stdout_frame on_stderr_frame)
  qed
  have "pipelineStep ?w' \<noteq> IDLE"
    using sa(2) Cons.prems(4) by simp
  then show ?case
    using Cons.IH [OF sa(1) t1 lt1] Cons.prems(5) sa(2,3) sp by simp
qed

lemma exec_append:
  "exec validate (xs @ ys) w = exec validate ys (exec validate xs w)"
  by (induction xs arbitrary: w) simp_all

lemma stopScraper_running:
  assumes "pipelineStep w \<noteq> IDLE" and "fst (broadcast (event_of Status abort_warning w) w) = None"
  shows "fst (stopScraper w) = StopResult True"
    and "abortRequested (snd (stopScraper w))"
    and "tasks (snd (stopScraper w)) = tasks w"
    and "nextTid (snd (stopScraper w)) = nextTid w"
    and "pipelineStep (snd (stopScraper w)) = pipelineStep w"
    and "spawned (snd (stopScraper w)) = spawned w"
  using assms
  by (simp_all add: stopScraper_def isRunning_def broadcast_eq event_of_def Let_def
        split: option.split)

lemma stopScraper_idle:
  "pipelineStep w = IDLE \<Longrightarrow> stopScraper w = (StopResult False, w)"
  by (simp add: stopScraper_def isRunning_def)

lemma resume_scrape_aborted:
  assumes "abortRequested w"
  shows "final_data tid (resume_command tid Scrape runId c joined w) =
     Some (final_record
       (if str_includes joined ''scan QR code'' \<or> str_includes joined ''QR code''
        then AUTH_REQUIRED else FAILED)
       (Some (if str_includes joined ''scan QR code'' \<or> str_includes joined ''QR code''
              then ''WhatsApp authentication required''
              else if c \<noteq> 0 then ''Scraping failed with exit code '' @ show_int c
              else ''Pipeline aborted by user'')) w)"
    and "pipelineStep (resume_command tid Scrape runId c joined w) = pipelineStep w"
  using assms
  by (simp_all add: resume_command_def resume_scrape_def finally_begin_def final_data_def)

lemma resume_process_done:
  "final_data tid (resume_command tid Process runId 0 joined w) = Some (final_record COMPLETED None w)"
  "resume_command tid Process runId 0 joined w = finally_begin tid runId COMPLETED None w"
  by (simp_all add: resume_command_def resume_process_def)

lemma alone_fields:
  "tasks w' = tasks w \<Longrightarrow> alone tid w' = alone tid w"
  by (simp add: alone_def)

section \<open>Stop requests\<close>

text \<open>
  C6, as the code has it. The state is reachable, task \<open>tid\<close> waits for stage 1, the step
  is \<open>SCRAPING\<close>, no other run is in flight, and no subscriber throws on the warning. Then
  \<^verbatim>\<open>stopScraper\<close> returns \<open>True\<close> and sets the flag; the flag is still set when stage 1
  ends, whatever happens in between. The run then enters its \<^verbatim>\<open>finally\<close> block without
  leaving \<open>SCRAPING\<close> and without spawning anything after \<^verbatim>\<open>npm start\<close>. Its outcome
  follows the order of the checks: \<open>AUTH_REQUIRED\<close> when the output contains the marker;
  otherwise \<open>FAILED\<close>, with the exit code in the message when that is not 0, and with
  \<^verbatim>\<open>Pipeline aborted by user\<close> when it is 0. When the step is \<open>IDLE\<close>, \<^verbatim>\<open>stopScraper\<close> returns
  \<open>False\<close> and changes nothing.
\<close>

theorem stop_while_scraping:
  assumes "w = exec validate es0 initial"
    and "tasks w tid = Some (K_command Scrape runId out)"
    and "pipelineStep w = SCRAPING" and "alone tid w"
    and "fst (broadcast (event_of Status abort_warning w) w) = None"
    and "\<forall>e' \<in> set es. \<not> child_ends tid e'"
    and "w2 = exec validate es (snd (step validate Call_stopScraper w))"
    and "child_ends tid e" and "fst (step validate e w2) = Done"
    and "pipelineStep idle = IDLE"
  shows "fst (step validate Call_stopScraper w) = StopResult True
     \<and> abortRequested (snd (step validate Call_stopScraper w))
     \<and> (\<exists>out'. tasks w2 tid = Some (K_command Scrape runId out')
          \<and> map_option d_status (final_data tid (snd (step validate e w2)))
              = Some (if str_includes (concat out') ''scan QR code''
                         \<or> str_includes (concat out') ''QR code''
                      then AUTH_REQUIRED else FAILED)
          \<and> map_option d_errorMessage (final_data tid (snd (step validate e w2)))
              = Some (Some (if str_includes (concat out') ''scan QR code''
                               \<or> str_includes (concat out') ''QR code''
                            then ''WhatsApp authentication required''
                            else if exit_code e \<noteq> 0
                            then ''Scraping failed with exit code '' @ show_int (exit_code e)
                            else ''Pipeline aborted by user'')))
     \<and> spawned_by tid (snd (step validate e w2)) = [(''npm'', [''start''])]
     \<and> pipelineStep (snd (step validate e w2)) = SCRAPING
     \<and> step validate Call_stopScraper idle = (StopResult False, idle)"
proof -
  let ?w1 = "snd (step validate Call_stopScraper w)"
  have busy: "pipelineStep w \<noteq> IDLE"
    using assms(3) by simp
  note stop = stopScraper_running [OF busy assms(5)]
  have cons: "consistent w"
    using assms(1) by (simp add: exec_consistent consistent_initial)
  then have lt: "tid < nextTid w" and ok: "task_ok tid (K_command Scrape runId out) w"
    using assms(2) by (simp_all add: consistent_def)
  have t1: "tasks ?w1 tid = Some (K_command Scrape runId out)"
    and lt1: "tid < nextTid ?w1" and busy1: "pipelineStep ?w1 \<noteq> IDLE"
    and ab1: "abortRequested ?w1"
    using stop assms(2,3) lt by simp_all
  have al1: "alone tid ?w1"
    using assms(4) alone_fields [OF stop(3), of tid] by simp
  obtain out' where t2: "tasks w2 tid = Some (K_command Scrape runId out')"
    using exec_keeps_command [OF t1 lt1 assms(6), of validate] assms(7) by auto
  have inv2: "pipelineStep w2 = pipelineStep ?w1 \<and> (abortRequested ?w1 \<longrightarrow> abortRequested w2)
      \<and> spawned_by tid w2 = spawned_by tid ?w1"
    unfolding assms(7) using al1 t1 lt1 busy1 assms(6) by (rule exec_alone)
  then have ab2: "abortRequested w2" and ps2: "pipelineStep w2 = SCRAPING"
    and sp2: "spawned_by tid w2 = [(''npm'', [''start''])]"
    using ab1 stop(5,6) assms(3) ok by (simp_all add: spawned_by_def task_ok_def)
  obtain w0 where w3: "snd (step validate e w2) = resume_command tid Scrape runId (exit_code e) (concat out') w0"
    and same: "spawned w0 = spawned w2" "abortRequested w0 = abortRequested w2"
      "pipelineStep w0 = pipelineStep w2"
    using child_end_resume [OF t2 assms(8,9)] by auto
  have ab0: "abortRequested w0"
    using ab2 same by simp
  note fin = resume_scrape_aborted [OF ab0, of tid runId "exit_code e" "concat out'"]
  have "spawned_by tid (snd (step validate e w2)) = [(''npm'', [''start''])]"
    using sp2 same(1) resume_command_frame(2) [of tid Scrape runId "exit_code e" "concat out'" w0]
    unfolding w3 by (simp add: spawned_by_def)
  moreover have "pipelineStep (snd (step validate e w2)) = SCRAPING"
    unfolding w3 using fin(2) same(3) ps2 by simp
  moreover have "map_option d_status (final_data tid (snd (step validate e w2)))
              = Some (if str_includes (concat out') ''scan QR code''
                         \<or> str_includes (concat out') ''QR code''
                      then AUTH_REQUIRED else FAILED)"
    unfolding w3 fin(1) by simp
  moreover have "map_option d_errorMessage (final_data tid (snd (step validate e w2)))
              = Some (Some (if str_includes (concat out') ''scan QR code''
                               \<or> str_includes (concat out') ''QR code''
                            then ''WhatsApp authentication required''
                            else if exit_code e \<noteq> 0
                            then ''Scraping failed with exit code '' @ show_int (exit_code e)
                            else ''Pipeline aborted by user''))"
    unfolding w3 fin(1) by simp
  moreover have "step validate Call_stopScraper idle = (StopResult False, idle)"
    using assms(10) by (simp add: stopScraper_idle)
  ultimately show ?thesis
    using stop(1,2) t2 by simp
qed

theorem stop_while_scraping_witness:
  "tasks (exec valid_twice_daily until_listing initial) 0
     = Some (K_command Scrape 1 [''Found 7 seller(s)''])
   \<and> pipelineStep (exec valid_twice_daily until_listing initial) = SCRAPING
   \<and> fst (step valid_twice_daily Call_stopScraper (exec valid_twice_daily until_listing initial))
       = StopResult True
   \<and> map_option d_errorMessage (final_data 0 (snd (step valid_twice_daily (Child_close 0 (Some 0))
        (exec valid_twice_daily [Child_stdout 0 ''done'', Call_startScraper MANUAL]
           (snd (step valid_twice_daily Call_stopScraper
              (exec valid_twice_daily until_listing initial)))))))
       = Some (Some ''Pipeline aborted by user'')
   \<and> spawned_by 0 (snd (step valid_twice_daily (Child_close 0 (Some 0))
        (exec valid_twice_daily [Child_stdout 0 ''done'', Call_startScraper MANUAL]
           (snd (step valid_twice_daily Call_stopScraper
              (exec valid_twice_daily until_listing initial))))))
       = [(''npm'', [''start''])]
   \<and> step valid_twice_daily Call_stopScraper initial = (StopResult False, initial)"
proof -
  let ?w = "exec valid_twice_daily until_listing initial"
  let ?es = "[Child_stdout 0 ''done'', Call_startScraper MANUAL]"
  let ?w2 = "exec valid_twice_daily ?es (snd (step valid_twice_daily Call_stopScraper ?w))"
  have h2: "tasks ?w 0 = Some (K_command Scrape 1 [''Found 7 seller(s)''])"
    by (simp add: until_listing_def eval_defs)
  have h3: "pipelineStep ?w = SCRAPING"
    by (simp add: until_listing_def eval_defs)
  have h4: "alone 0 ?w"
    by (simp add: until_listing_def eval_defs alone_def)
  have h5: "fst (broadcast (event_of Status abort_warning ?w) ?w) = None"
    by (simp add: until_listing_def eval_defs)
  have h6: "\<forall>e' \<in> set ?es. \<not> child_ends 0 e'"
    by simp
  have h8: "child_ends 0 (Child_close 0 (Some 0))"
    by simp
  have h9: "fst (step valid_twice_daily (Child_close 0 (Some 0)) ?w2) = Done"
    by (simp add: on_close_def split: option.split cont.split)
  have h10: "pipelineStep initial = IDLE"
    by (simp add: initial_def)
  have t2: "tasks ?w2 0 = Some (K_command Scrape 1 [''Found 7 seller(s)'', ''done''])"
    by (simp add: until_listing_def eval_defs)
  note inst = stop_while_scraping [OF refl h2 h3 h4 h5 h6 refl h8 h9 h10]
  from inst obtain out' where o: "tasks ?w2 0 = Some (K_command Scrape 1 out')"
    and m: "map_option d_errorMessage (final_data 0 (snd (step valid_twice_daily (Child_close 0 (Some 0)) ?w2)))
              = Some (Some (if str_includes (concat out') ''scan QR code''
                               \<or> str_includes (concat out') ''QR code''
                            then ''WhatsApp authentication required''
                            else if exit_code (Child_close 0 (Some 0)) \<noteq> 0
                            then ''Scraping failed with exit code '' @ show_int (exit_code (Child_close 0 (Some 0)))
                            else ''Pipeline aborted by user''))"
    by blast
  from o t2 have "out' = [''Found 7 seller(s)'', ''done'']"
    by simp
  then have "map_option d_errorMessage (final_data 0 (snd (step valid_twice_daily (Child_close 0 (Some 0)) ?w2)))
      = Some (Some ''Pipeline aborted by user'')"
    using m by simp
  then show ?thesis
    using inst h2 h3 by blast
qed

text \<open>
  C6 as stated fails when the output of stage 1 contains the marker: the stop request is
  accepted while the step is \<open>SCRAPING\<close>, the scraper then exits with code 0, and the run
  ends with \<open>AUTH_REQUIRED\<close> and the message of that branch, not with the abort.
\<close>

theorem stop_while_scraping_auth_wins:
  "pipelineStep (exec valid_twice_daily until_scrape initial) = SCRAPING
   \<and> fst (step valid_twice_daily Call_stopScraper (exec valid_twice_daily until_scrape initial))
       = StopResult True
   \<and> abortRequested (exec valid_twice_daily (until_scrape @ [Call_stopScraper]) initial)
   \<and> map_option d_status (final_data 0
        (exec valid_twice_daily (until_scrape @ [Call_stopScraper, Child_close 0 (Some 0)]) initial))
       = Some AUTH_REQUIRED
   \<and> map_option d_errorMessage (final_data 0
        (exec valid_twice_daily (until_scrape @ [Call_stopScraper, Child_close 0 (Some 0)]) initial))
       = Some (Some ''WhatsApp authentication required'')"
  by (simp add: until_scrape_def eval_defs final_data_def)

section \<open>Stopping during the last stage\<close>

lemma stopScraper_busy:
  assumes "pipelineStep w \<noteq> IDLE"
  shows "fst (stopScraper w) =
           (case fst (broadcast (event_of Status abort_warning w) w) of
              None \<Rightarrow> StopResult True
            | Some x \<Rightarrow> Uncaught x)"
    and "abortRequested (snd (stopScraper w))"
    and "tasks (snd (stopScraper w)) = tasks w"
    and "nextTid (snd (stopScraper w)) = nextTid w"
    and "pipelineStep (snd (stopScraper w)) = pipelineStep w"
    and "spawned (snd (stopScraper w)) = spawned w"
  using assms
  by (simp_all add: stopScraper_def isRunning_def broadcast_eq event_of_def Let_def
        split: option.split)

text \<open>
  C9. The state is reachable, task \<open>tid\<close> waits for stage 3 and the step is \<open>PROCESSING\<close>.
  \<^verbatim>\<open>stopScraper\<close> sets the flag (which stays set until stage 3 ends when no other run is in
  flight) and broadcasts the warning: it returns \<open>True\<close> when no subscriber throws on the
  warning, and otherwise what the first throwing subscriber threw leaves the call. In both
  cases, when the command of stage 3 then exits with code 0, the run enters its
  \<^verbatim>\<open>finally\<close> block with \<open>COMPLETED\<close> and no error message, and \<open>COMPLETED\<close> is what the row
  holds once the last update is fulfilled: nothing reads the flag after stage 3.
\<close>

theorem stop_while_processing:
  assumes "w = exec validate es0 initial"
    and "tasks w tid = Some (K_command Process runId out)"
    and "pipelineStep w = Step_PROCESSING"
    and "\<forall>e' \<in> set es. \<not> child_ends tid e'"
    and "w2 = exec validate es (snd (step validate Call_stopScraper w))"
    and "w3 = snd (step validate (Child_close tid (Some 0)) w2)"
  shows "fst (step validate Call_stopScraper w) =
           (case fst (broadcast (event_of Status abort_warning w) w) of
              None \<Rightarrow> StopResult True
            | Some x \<Rightarrow> Uncaught x)
     \<and> abortRequested (snd (step validate Call_stopScraper w))
     \<and> (alone tid w \<longrightarrow> abortRequested w2)
     \<and> map_option d_status (final_data tid w3) = Some COMPLETED
     \<and> map_option d_errorMessage (final_data tid w3) = Some None
     \<and> ((\<forall>e' \<in> set es'. \<not> db_settles tid e') \<longrightarrow>
          map_option status
            (runs (snd (step validate (Db_settled tid None) (exec validate es' w3))) runId)
           = Some COMPLETED)"
proof -
  let ?w1 = "snd (step validate Call_stopScraper w)"
  have busy: "pipelineStep w \<noteq> IDLE"
    using assms(3) by simp
  note stop = stopScraper_busy [OF busy]
  have cons: "consistent w"
    using assms(1) by (simp add: exec_consistent consistent_initial)
  then have lt: "tid < nextTid w"
    using assms(2) by (simp add: consistent_def)
  have t1: "tasks ?w1 tid = Some (K_command Process runId out)"
    and lt1: "tid < nextTid ?w1" and busy1: "pipelineStep ?w1 \<noteq> IDLE"
    and ab1: "abortRequested ?w1"
    using stop assms(2,3) lt by simp_all
  obtain out' where t2: "tasks w2 tid = Some (K_command Process runId out')"
    using exec_keeps_command [OF t1 lt1 assms(4), of validate] assms(5) by auto
  have reach: "w2 = exec validate (es0 @ Call_stopScraper # es) initial"
    using assms(1,5) by (simp add: exec_append)
  have w3: "w3 = finally_begin tid runId COMPLETED None w2"
    using assms(6) t2 by (simp add: on_close_def resume_process_done)
  note after = after_finally_begin [OF t2 [unfolded reach] w3 [unfolded reach] refl refl refl refl,
      of es']
  have "abortRequested w2" if al: "alone tid w"
  proof -
    have al1: "alone tid ?w1"
      using al alone_fields [OF stop(3), of tid] by simp
    have "pipelineStep w2 = pipelineStep ?w1 \<and> (abortRequested ?w1 \<longrightarrow> abortRequested w2)
        \<and> spawned_by tid w2 = spawned_by tid ?w1"
      unfolding assms(5) using al1 t1 lt1 busy1 assms(4) by (rule exec_alone)
    then show ?thesis
      using ab1 by simp
  qed
  moreover have "map_option d_status (final_data tid w3) = Some COMPLETED"
    and "map_option d_errorMessage (final_data tid w3) = Some None"
    by (simp_all add: w3)
  moreover have "map_option status
            (runs (snd (step validate (Db_settled tid None) (exec validate es' w3))) runId)
           = Some COMPLETED"
    if "\<forall>e' \<in> set es'. \<not> db_settles tid e'"
    using after(2) [OF that] by auto
  ultimately show ?thesis
    using stop(1,2) by simp
qed

theorem stop_while_processing_witness:
  "tasks (exec valid_twice_daily until_process initial) 0
     = Some (K_command Process 1 [''Saved 42 products''])
   \<and> pipelineStep (exec valid_twice_daily until_process initial) = Step_PROCESSING
   \<and> fst (step valid_twice_daily Call_stopScraper (exec valid_twice_daily until_process initial))
       = StopResult True
   \<and> abortRequested (exec valid_twice_daily [Child_stdout 0 ''done'']
        (snd (step valid_twice_daily Call_stopScraper (exec valid_twice_daily until_process initial))))
   \<and> map_option d_status (final_data 0 (snd (step valid_twice_daily (Child_close 0 (Some 0))
        (exec valid_twice_daily [Child_stdout 0 ''done'']
           (snd (step valid_twice_daily Call_stopScraper
              (exec valid_twice_daily until_process initial)))))))
       = Some COMPLETED
   \<and> map_option status
        (runs (snd (step valid_twice_daily (Db_settled 0 None)
           (exec valid_twice_daily [Time_passes 2]
              (snd (step valid_twice_daily (Child_close 0 (Some 0))
                 (exec valid_twice_daily [Child_stdout 0 ''done'']
                    (snd (step valid_twice_daily Call_stopScraper
                       (exec valid_twice_daily until_process initial)))))))))
           1)
       = Some COMPLETED"
proof -
  let ?w = "exec valid_twice_daily until_process initial"
  have h2: "tasks ?w 0 = Some (K_command Process 1 [''Saved 42 products''])"
    by (simp add: until_process_def eval_defs)
  have h3: "pipelineStep ?w = Step_PROCESSING"
    by (simp add: until_process_def eval_defs)
  have h4: "fst (broadcast (event_of Status abort_warning ?w) ?w) = None"
    by (simp add: until_process_def eval_defs)
  have h5: "\<forall>e' \<in> set [Child_stdout 0 ''done'']. \<not> child_ends 0 e'"
    by simp
  have h6: "alone 0 ?w"
    by (simp add: until_process_def eval_defs alone_def)
  have h7: "\<forall>e' \<in> set [Time_passes 2]. \<not> db_settles 0 e'"
    by simp
  show ?thesis
    using stop_while_processing [OF refl h2 h3 h5 refl refl, of "[Time_passes 2]"] h2 h3 h4 h6 h7
    by simp
qed

text \<open>
  A subscriber that throws has joined during stage 3: \<^verbatim>\<open>stopScraper\<close> does not return,
  the exception of the subscriber leaves it. The flag is set all the same, and the run
  ends \<open>COMPLETED\<close>.
\<close>

theorem stop_while_processing_throws:
  "pipelineStep (exec valid_twice_daily until_process_watched initial) = Step_PROCESSING
   \<and> tasks (exec valid_twice_daily until_process_watched initial) 0
       = Some (K_command Process 1 [''Saved 42 products''])
   \<and> fst (step valid_twice_daily Call_stopScraper
        (exec valid_twice_daily until_process_watched initial))
       = Uncaught (Error ''boom'')
   \<and> abortRequested (snd (step valid_twice_daily Call_stopScraper
        (exec valid_twice_daily until_process_watched initial)))
   \<and> map_option status
        (runs (exec valid_twice_daily [Call_stopScraper, Child_close 0 (Some 0), Db_settled 0 None]
           (exec valid_twice_daily until_process_watched initial)) 1)
       = Some COMPLETED"
  by (simp add: until_process_watched_def eval_defs subscribe_def throwing_callback_def
        finally_resume_def)

section \<open>The \<^verbatim>\<open>finally\<close> block\<close>


















section \<open>Standard error of a stage\<close>

lemma deliver_events:
  "map snd (snd (deliver ls out)) = replicate (length (snd (deliver ls out))) out"
  by (simp add: deliver_calls map_replicate_const comp_def replicate_add)

text \<open>
  A stretch of the \<^verbatim>\<open>try\<close> block either goes on to the next \<^verbatim>\<open>await\<close> of the block, the
  buffer as it was, or enters the \<^verbatim>\<open>finally\<close> block, which joins the buffer.
\<close>

lemma resume_command_output:
  assumes "pipelineStep w \<noteq> IDLE"
  shows "(\<exists>d. tasks (resume_command tid st runId c joined w) tid = Some (K_final runId d)
            \<and> d_output d = concat (outputBuffer w))
       \<or> (\<exists>k. tasks (resume_command tid st runId c joined w) tid = Some k
            \<and> run_of k = Some runId
            \<and> final_data tid (resume_command tid st runId c joined w) = None
            \<and> pipelineStep (resume_command tid st runId c joined w) \<noteq> IDLE
            \<and> outputBuffer (resume_command tid st runId c joined w) = outputBuffer w)"
  using assms
  by (simp add: resume_command_def resume_scrape_def resume_enrich_def resume_process_def
        catch_block_def finally_begin_def broadcast_eq Let_def event_of_def final_data_def
        split: goal_splits)

lemma resume_update_enriching_output:
  assumes "pipelineStep w \<noteq> IDLE"
  shows "(\<exists>d. tasks (resume_update_enriching tid runId failure w) tid = Some (K_final runId d)
            \<and> d_output d = concat (outputBuffer w))
       \<or> (\<exists>k. tasks (resume_update_enriching tid runId failure w) tid = Some k
            \<and> run_of k = Some runId
            \<and> final_data tid (resume_update_enriching tid runId failure w) = None
            \<and> pipelineStep (resume_update_enriching tid runId failure w) \<noteq> IDLE
            \<and> outputBuffer (resume_update_enriching tid runId failure w) = outputBuffer w)"
  using assms
  by (simp add: resume_update_enriching_def update_run_def runCommand_def
        catch_block_def finally_begin_def Let_def final_data_def
        split: goal_splits)

lemma resume_update_processing_output:
  assumes "pipelineStep w \<noteq> IDLE"
  shows "(\<exists>d. tasks (resume_update_processing tid runId failure w) tid = Some (K_final runId d)
            \<and> d_output d = concat (outputBuffer w))
       \<or> (\<exists>k. tasks (resume_update_processing tid runId failure w) tid = Some k
            \<and> run_of k = Some runId
            \<and> final_data tid (resume_update_processing tid runId failure w) = None
            \<and> pipelineStep (resume_update_processing tid runId failure w) \<noteq> IDLE
            \<and> outputBuffer (resume_update_processing tid runId failure w) = outputBuffer w)"
  using assms
  by (simp add: resume_update_processing_def update_run_def runCommand_def
        catch_block_def finally_begin_def Let_def final_data_def
        split: goal_splits)

lemma on_stdout_output:
  "tasks w t = Some (K_command st runId out) \<Longrightarrow>
     outputBuffer (snd (on_stdout t chunk w)) = outputBuffer w @ [chunk]"
  by (simp add: on_stdout_def broadcast_eq Let_def split: goal_splits)

lemma on_stderr_output:
  "tasks w t = Some (K_command st runId out) \<Longrightarrow>
     outputBuffer (snd (on_stderr t chunk w)) = outputBuffer w @ [''[ERROR] '' @ chunk]"
  by (simp add: on_stderr_def broadcast_eq Let_def split: goal_splits)

lemma updateSchedulerConfig_resume_output:
  "outputBuffer (snd (updateSchedulerConfig_resume validate t en expr failure w)) = outputBuffer w"
  by (simp add: updateSchedulerConfig_resume_def startScheduler_def stopScheduler_def Let_def
        split: goal_splits)

text \<open>
  An event for the task itself, while it is in its \<^verbatim>\<open>try\<close> block and the step is not
  \<open>IDLE\<close>.
\<close>

lemma step_own_output:
  assumes task: "tasks w tid = Some k" and run: "run_of k = Some runId"
    and nf: "final_data tid w = None" and busy: "pipelineStep w \<noteq> IDLE"
    and tgt: "target e = Some tid"
  shows "(\<exists>d. tasks (snd (step validate e w)) tid = Some (K_final runId d)
            \<and> prefix (concat (outputBuffer w)) (d_output d))
       \<or> (\<exists>k'. tasks (snd (step validate e w)) tid = Some k'
            \<and> run_of k' = Some runId
            \<and> final_data tid (snd (step validate e w)) = None
            \<and> pipelineStep (snd (step validate e w)) \<noteq> IDLE
            \<and> prefix (outputBuffer w) (outputBuffer (snd (step validate e w))))"
proof -
  let ?w' = "snd (step validate e w)"
  have same: "?w' = w \<Longrightarrow> ?thesis"
    using task run nf busy by simp
  show ?thesis
  proof (cases k)
    case (K_command st r out)
    then have r: "r = runId" using run by simp
    have cmd: "tasks w tid = Some (K_command st runId out)"
      using task K_command r by simp
    show ?thesis
    proof (cases e)
      case (Db_settled t failure)
      then show ?thesis
        using tgt cmd same by (simp add: db_settled_idle)
    next
      case (Child_stdout t chunk)
      then have "tasks ?w' tid = Some (K_command st runId (out @ [chunk]))"
        and "outputBuffer ?w' = outputBuffer w @ [chunk]"
        and "pipelineStep ?w' = pipelineStep w"
        using tgt cmd by (simp_all add: on_stdout_frame on_stdout_output on_stdout_fields)
      then show ?thesis
        using busy by (simp add: final_data_def)
    next
      case (Child_stderr t chunk)
      then have "tasks ?w' tid = Some (K_command st runId (out @ [''[ERROR] '' @ chunk]))"
        and "outputBuffer ?w' = outputBuffer w @ [''[ERROR] '' @ chunk]"
        and "pipelineStep ?w' = pipelineStep w"
        using tgt cmd by (simp_all add: on_stderr_frame on_stderr_output on_stderr_fields)
      then show ?thesis
        using busy by (simp add: final_data_def)
    next
      case (Child_close t code)
      then have "?w' = resume_command tid st runId (case code of None \<Rightarrow> 1 | Some c \<Rightarrow> c)
          (concat out) w"
        using tgt cmd by (simp add: on_close_def)
      then show ?thesis
        using resume_command_output [OF busy, of tid st runId
            "case code of None \<Rightarrow> 1 | Some c \<Rightarrow> c" "concat out"]
        by auto
    next
      case (Child_error t message)
      let ?b = "broadcast (event_of Stderr (''Process error: '' @ message) w) w"
      have b: "tasks (snd ?b) = tasks w" "pipelineStep (snd ?b) = pipelineStep w"
        "outputBuffer (snd ?b) = outputBuffer w"
        by (simp_all add: broadcast_eq)
      show ?thesis
      proof (cases "fst ?b")
        case None
        then have "?w' = resume_command tid st runId 1 (concat out) (snd ?b)"
          using tgt Child_error on_error_command [OF cmd, of message] by simp
        then show ?thesis
          using resume_command_output [of "snd ?b" tid st runId 1 "concat out"] busy b
          by auto
      next
        case (Some x)
        then have "?w' = snd ?b"
          using tgt Child_error on_error_command [OF cmd, of message] by simp
        then show ?thesis
          using cmd busy b by (simp add: final_data_def)
      qed
    qed (use tgt in simp_all)
  next
    case (K_update_enriching r)
    then have r: "r = runId" using run by simp
    have idle: "\<not> awaits_child (tasks w tid)"
      using task K_update_enriching by simp
    show ?thesis
    proof (cases e)
      case (Db_settled t failure)
      then have "?w' = resume_update_enriching tid runId failure w"
        using tgt task K_update_enriching r by (simp add: db_settled_def)
      then show ?thesis
        using resume_update_enriching_output [OF busy, of tid runId failure] by auto
    qed (use tgt idle same in
        \<open>simp_all add: on_stdout_idle on_stderr_idle on_close_idle on_error_idle\<close>)
  next
    case (K_update_processing r)
    then have r: "r = runId" using run by simp
    have idle: "\<not> awaits_child (tasks w tid)"
      using task K_update_processing by simp
    show ?thesis
    proof (cases e)
      case (Db_settled t failure)
      then have "?w' = resume_update_processing tid runId failure w"
        using tgt task K_update_processing r by (simp add: db_settled_def)
      then show ?thesis
        using resume_update_processing_output [OF busy, of tid runId failure] by auto
    qed (use tgt idle same in
        \<open>simp_all add: on_stdout_idle on_stderr_idle on_close_idle on_error_idle\<close>)
  next
    case (K_final r d)
    then show ?thesis
      using task nf by (simp add: final_data_def)
  qed (use run in simp_all)
qed

text \<open>An event for nobody or for somebody else, while no other run is in flight.\<close>

lemma step_elsewhere:
  assumes al: "alone tid w" and lt: "tid < nextTid w" and busy: "pipelineStep w \<noteq> IDLE"
    and e: "target e \<noteq> Some tid"
  shows "alone tid (snd (step validate e w))"
    and "pipelineStep (snd (step validate e w)) = pipelineStep w"
    and "outputBuffer (snd (step validate e w)) = outputBuffer w"
proof -
  let ?w' = "snd (step validate e w)"
  have all: "alone tid ?w' \<and> pipelineStep ?w' = pipelineStep w \<and> outputBuffer ?w' = outputBuffer w"
  proof (cases "target e")
    case None
    have "tasks ?w' = tasks w
        \<or> (\<exists>en expr. tasks ?w' = (tasks w)(nextTid w \<mapsto> K_upsert en expr))"
      using step_untargeted_tasks [OF None, where validate = validate and w = w] busy by auto
    then have "alone tid ?w'"
      using al lt by (auto simp: alone_def)
    then show ?thesis
      using step_untargeted(3,4) [OF None, where validate = validate and w = w] by simp
  next
    case (Some t)
    then have ne: "t \<noteq> tid"
      using e by simp
    from alone_other [OF al ne] show ?thesis
    proof
      assume "tasks w t = None"
      then have "step validate e w = (Done, w)"
        using Some by (rule step_idle_target [rotated])
      then show ?thesis
        using al by simp
    next
      assume "\<exists>en expr. tasks w t = Some (K_upsert en expr)"
      then obtain en expr where up: "tasks w t = Some (K_upsert en expr)"
        by auto
      then have idle: "\<not> awaits_child (tasks w t)"
        by simp
      have fr: "frame t w ?w'"
        using Some by (rule step_targeted_frame)
      have "alone tid ?w'"
      proof (rule alone_same [OF al])
        fix u assume "u \<noteq> tid"
        show "tasks ?w' u = tasks w u \<or> tasks ?w' u = None"
        proof (cases "u = t")
          case True
          then show ?thesis
            using Some up idle
            by (cases e)
               (simp_all add: db_settled_def updateSchedulerConfig_resume_frame
                  on_stdout_idle on_stderr_idle on_close_idle on_error_idle)
        next
          case False
          then show ?thesis
            using frameD(2) [OF fr] by simp
        qed
      qed
      moreover have "pipelineStep ?w' = pipelineStep w \<and> outputBuffer ?w' = outputBuffer w"
        using Some up idle
        by (cases e)
           (simp_all add: db_settled_def updateSchedulerConfig_resume_fields
              updateSchedulerConfig_resume_output
              on_stdout_idle on_stderr_idle on_close_idle on_error_idle)
      ultimately show ?thesis
        by simp
    qed
  qed
  show "alone tid ?w'" and "pipelineStep ?w' = pipelineStep w"
    and "outputBuffer ?w' = outputBuffer w"
    using all by simp_all
qed

lemma step_keeps_output:
  assumes inv: "keeps_output tid runId B w"
  shows "keeps_output tid runId B (snd (step validate e w))"
proof -
  let ?w' = "snd (step validate e w)"
  have lt: "tid < nextTid w"
    using inv by (simp add: keeps_output_def)
  then have lt': "tid < nextTid ?w'"
    using step_nextTid [of w validate e] by simp
  show ?thesis
  proof (cases "tasks w tid")
    case None
    have "tasks ?w' tid = None"
    proof (cases "target e = Some tid")
      case True
      then have "step validate e w = (Done, w)"
        using None by (rule step_idle_target)
      then show ?thesis
        using None by simp
    next
      case False
      then show ?thesis
        using step_other_task [of e tid w validate] lt None by simp
    qed
    then show ?thesis
      using lt' by (simp add: keeps_output_def)
  next
    case (Some k)
    then have run: "run_of k = Some runId" and ex: "runs w runId \<noteq> None"
      using inv by (simp_all add: keeps_output_def)
    have ex': "runs ?w' runId \<noteq> None"
      using ex by (rule step_keeps_runs)
    show ?thesis
    proof (cases "final_data tid w")
      case (Some d)
      then have fin: "tasks w tid = Some (K_final runId d)"
        using \<open>tasks w tid = Some k\<close> run final_data_task [of tid w d] by auto
      have pre: "prefix (concat B) (d_output d)"
        using inv Some fin by (simp add: keeps_output_def)
      show ?thesis
      proof (cases "db_settles tid e")
        case True
        then obtain failure where "e = Db_settled tid failure"
          by (cases e) simp_all
        then have "tasks ?w' tid = None"
          using fin by (simp add: db_settled_def finally_resume_frame)
        then show ?thesis
          using lt' by (simp add: keeps_output_def)
      next
        case False
        have "tasks ?w' tid = Some (K_final runId d)"
          using fin lt False by (rule step_keeps_final)
        then show ?thesis
          using lt' ex' pre by (simp add: keeps_output_def final_data_def)
      qed
    next
      case None
      then have al: "alone tid w" and busy: "pipelineStep w \<noteq> IDLE"
        and pre: "prefix B (outputBuffer w)"
        using inv \<open>tasks w tid = Some k\<close> by (simp_all add: keeps_output_def)
      show ?thesis
      proof (cases "target e = Some tid")
        case False
        have "tasks ?w' tid = Some k"
          using step_other_task [OF False lt, of validate] \<open>tasks w tid = Some k\<close> by simp
        moreover have "final_data tid ?w' = None"
          using calculation None \<open>tasks w tid = Some k\<close> by (simp add: final_data_def)
        ultimately show ?thesis
          using step_elsewhere [OF al lt busy False, of validate] lt' ex' run pre busy
          by (simp add: keeps_output_def)
      next
        case True
        have fr: "frame tid w ?w'"
          using True by (rule step_targeted_frame)
        have al': "alone tid ?w'"
          by (rule alone_same [OF al]) (simp add: frameD(2) [OF fr])
        from step_own_output [OF \<open>tasks w tid = Some k\<close> run None busy True, of validate]
        show ?thesis
        proof
          assume "\<exists>d. tasks ?w' tid = Some (K_final runId d)
              \<and> prefix (concat (outputBuffer w)) (d_output d)"
          then obtain d where fin: "tasks ?w' tid = Some (K_final runId d)"
            and p: "prefix (concat (outputBuffer w)) (d_output d)"
            by auto
          have "prefix (concat B) (concat (outputBuffer w))"
            using pre by (auto simp: prefix_def)
          then have "prefix (concat B) (d_output d)"
            using p by (rule prefix_order.trans)
          then show ?thesis
            using fin lt' ex' by (simp add: keeps_output_def final_data_def)
        next
          assume "\<exists>k'. tasks ?w' tid = Some k' \<and> run_of k' = Some runId
              \<and> final_data tid ?w' = None \<and> pipelineStep ?w' \<noteq> IDLE
              \<and> prefix (outputBuffer w) (outputBuffer ?w')"
          then obtain k' where k': "tasks ?w' tid = Some k'" "run_of k' = Some runId"
            "final_data tid ?w' = None" "pipelineStep ?w' \<noteq> IDLE"
            and p: "prefix (outputBuffer w) (outputBuffer ?w')"
            by auto
          have "prefix B (outputBuffer ?w')"
            using pre p by (rule prefix_order.trans)
          then show ?thesis
            using k' lt' ex' al' by (simp add: keeps_output_def)
        qed
      qed
    qed
  qed
qed

lemma exec_keeps_output:
  "keeps_output tid runId B w \<Longrightarrow> keeps_output tid runId B (exec validate es w)"
  by (induction es arbitrary: w) (simp_all add: step_keeps_output)

text \<open>
  C10. A chunk on the standard error of the child of a waiting task is appended to the
  buffer of the service and to the output of the command with \<^verbatim>\<open>[ERROR]\<close> and a space in
  front; the event handed to \<^verbatim>\<open>broadcast\<close>, and every callback invocation it causes,
  carries the chunk as it came. The two texts are never equal. When the state is reachable,
  no other run is in flight and the step is not \<open>IDLE\<close>, then whatever happens next, the
  output the \<^verbatim>\<open>finally\<close> block of this run sends to the database starts with what the
  buffer held, joined, followed by the prefixed chunk; and this output is what the row of
  the run holds once the update is fulfilled.
\<close>

theorem stderr_stored_prefixed_sent_raw:
  assumes "tasks w tid = Some (K_command st runId out)"
    and "w1 = snd (step validate (Child_stderr tid chunk) w)"
  shows "outputBuffer w1 = outputBuffer w @ [''[ERROR] '' @ chunk]
     \<and> tasks w1 tid = Some (K_command st runId (out @ [''[ERROR] '' @ chunk]))
     \<and> d_output (final_record s m w1) = d_output (final_record s m w) @ ''[ERROR] '' @ chunk
     \<and> published w1 = published w @ [\<lparr>type = Stderr, data = chunk, timestamp = now w\<rparr>]
     \<and> map snd (drop (length (delivered w)) (delivered w1))
           = replicate (length (delivered w1) - length (delivered w))
               \<lparr>type = Stderr, data = chunk, timestamp = now w\<rparr>
     \<and> ''[ERROR] '' @ chunk \<noteq> chunk
     \<and> (w = exec validate es0 initial \<and> alone tid w \<and> pipelineStep w \<noteq> IDLE
          \<and> final_data tid (exec validate es w1) = Some d \<longrightarrow>
        prefix (concat (outputBuffer w) @ ''[ERROR] '' @ chunk) (d_output d)
        \<and> map_option run_output
            (runs (snd (step validate (Db_settled tid None) (exec validate es w1))) runId)
           = Some (Some (d_output d)))"
proof -
  let ?ev = "\<lparr>type = Stderr, data = chunk, timestamp = now w\<rparr>"
  let ?w1 = "w\<lparr>outputBuffer := outputBuffer w @ [''[ERROR] '' @ chunk],
               tasks := (tasks w)(tid \<mapsto> K_command st runId (out @ [''[ERROR] '' @ chunk]))\<rparr>"
  let ?B = "outputBuffer w @ [''[ERROR] '' @ chunk]"
  have eq: "w1 = snd (broadcast ?ev ?w1)"
    using assms by (simp add: on_stderr_def event_of_def Let_def split: prod.split option.split)
  have ne: "''[ERROR] '' @ chunk \<noteq> chunk"
    by (simp only: append_self_conv2) simp
  have here: "outputBuffer w1 = ?B
     \<and> tasks w1 tid = Some (K_command st runId (out @ [''[ERROR] '' @ chunk]))
     \<and> d_output (final_record s m w1) = d_output (final_record s m w) @ ''[ERROR] '' @ chunk
     \<and> published w1 = published w @ [?ev]
     \<and> map snd (drop (length (delivered w)) (delivered w1))
           = replicate (length (delivered w1) - length (delivered w)) ?ev"
    unfolding eq using deliver_events [of "listeners w" ?ev]
    by (simp add: broadcast_eq)
  have later: "prefix (concat (outputBuffer w) @ ''[ERROR] '' @ chunk) (d_output d)
        \<and> map_option run_output
            (runs (snd (step validate (Db_settled tid None) (exec validate es w1))) runId)
           = Some (Some (d_output d))"
    if reach: "w = exec validate es0 initial" and al: "alone tid w"
      and busy: "pipelineStep w \<noteq> IDLE"
      and fin: "final_data tid (exec validate es w1) = Some d"
  proof -
    let ?w2 = "exec validate es w1"
    have cons: "consistent w"
      using reach by (simp add: exec_consistent consistent_initial)
    then have lt: "tid < nextTid w" and ok: "task_ok tid (K_command st runId out) w"
      using assms(1) by (simp_all add: consistent_def)
    have ex: "runs w runId \<noteq> None"
      using ok by (simp add: task_ok_def)
    have e: "\<not> child_ends tid (Child_stderr tid chunk)"
      by simp
    note sa = step_alone [OF al assms(1) lt busy e, where validate = validate]
    have "keeps_output tid runId ?B w1"
      using here sa lt ex busy step_nextTid [of w validate "Child_stderr tid chunk"]
        step_keeps_runs [OF ex, of validate "Child_stderr tid chunk"]
      unfolding assms(2) by (simp add: keeps_output_def final_data_def)
    then have inv: "keeps_output tid runId ?B ?w2"
      by (rule exec_keeps_output)
    obtain r where t2: "tasks ?w2 tid = Some (K_final r d)"
      using final_data_task [OF fin] by auto
    then have r: "r = runId" and ex2: "runs ?w2 runId \<noteq> None"
      and pre: "prefix (concat ?B) (d_output d)"
      using inv fin by (simp_all add: keeps_output_def)
    obtain row where row: "runs ?w2 runId = Some row"
      using ex2 by auto
    have "map_option run_output
            (runs (snd (step validate (Db_settled tid None) ?w2)) runId)
           = Some (Some (d_output d))"
      using t2 r finally_resume_persists [OF row, of tid d] by (simp add: db_settled_def)
    then show ?thesis
      using pre by simp
  qed
  show ?thesis
    using here ne later by blast
qed

theorem stderr_stored_prefixed_sent_raw_witness:
  "tasks (exec valid_twice_daily until_listing_watched initial) 0
     = Some (K_command Scrape 1 [''Found 7 seller(s)''])
   \<and> alone 0 (exec valid_twice_daily until_listing_watched initial)
   \<and> pipelineStep (exec valid_twice_daily until_listing_watched initial) = SCRAPING
   \<and> outputBuffer (snd (step valid_twice_daily (Child_stderr 0 ''slow network'')
        (exec valid_twice_daily until_listing_watched initial)))
       = [''Found 7 seller(s)'', ''[ERROR] slow network'']
   \<and> delivered (snd (step valid_twice_daily (Child_stderr 0 ''slow network'')
        (exec valid_twice_daily until_listing_watched initial)))
       = [(7, \<lparr>type = Stderr, data = ''slow network'', timestamp = 0\<rparr>)]
   \<and> map_option d_output (final_data 0 (exec valid_twice_daily [Child_close 0 (Some 1)]
        (snd (step valid_twice_daily (Child_stderr 0 ''slow network'')
           (exec valid_twice_daily until_listing_watched initial)))))
       = Some ''Found 7 seller(s)[ERROR] slow network''
   \<and> map_option run_output
        (runs (snd (step valid_twice_daily (Db_settled 0 None)
           (exec valid_twice_daily [Child_close 0 (Some 1)]
              (snd (step valid_twice_daily (Child_stderr 0 ''slow network'')
                 (exec valid_twice_daily until_listing_watched initial)))))) 1)
       = Some (Some ''Found 7 seller(s)[ERROR] slow network'')"
proof -
  let ?w = "exec valid_twice_daily until_listing_watched initial"
  let ?w1 = "snd (step valid_twice_daily (Child_stderr 0 ''slow network'') ?w)"
  have h1: "tasks ?w 0 = Some (K_command Scrape 1 [''Found 7 seller(s)''])"
    by (simp add: until_listing_watched_def eval_defs subscribe_def quiet_callback_def)
  have h2: "alone 0 ?w"
    by (simp add: until_listing_watched_def eval_defs subscribe_def quiet_callback_def alone_def)
  have h3: "pipelineStep ?w = SCRAPING"
    by (simp add: until_listing_watched_def eval_defs subscribe_def quiet_callback_def)
  have ob: "outputBuffer ?w = [''Found 7 seller(s)'']"
    by (simp add: until_listing_watched_def eval_defs subscribe_def quiet_callback_def)
  have dl: "delivered ?w1
      = [(7, \<lparr>type = Stderr, data = ''slow network'', timestamp = 0\<rparr>)]"
    by (simp add: until_listing_watched_def eval_defs subscribe_def quiet_callback_def)
  have fd: "map_option d_output (final_data 0 (exec valid_twice_daily [Child_close 0 (Some 1)] ?w1))
      = Some ''Found 7 seller(s)[ERROR] slow network''"
    by (simp add: until_listing_watched_def eval_defs subscribe_def quiet_callback_def
          final_data_def)
  then obtain d where d: "final_data 0 (exec valid_twice_daily [Child_close 0 (Some 1)] ?w1) = Some d"
    and out: "d_output d = ''Found 7 seller(s)[ERROR] slow network''"
    by auto
  show ?thesis
    using stderr_stored_prefixed_sent_raw [OF h1 refl, of valid_twice_daily "''slow network''"
        COMPLETED None until_listing_watched "[Child_close 0 (Some 1)]" d]
      h1 h2 h3 ob dl fd d out
    by simp
qed

text \<open>
  The chunk reaches the subscribers, but the start of the second run empties the buffer
  before the first run joins it: the row of the first run holds an empty output, and the
  row of the second run none.
\<close>

theorem stderr_lost_when_starts_overlap:
  "\<lparr>type = Stderr, data = ''slow network'', timestamp = 0\<rparr>
     \<in> set (published (exec valid_twice_daily overlapping_stderr initial))
   \<and> map_option status (runs (exec valid_twice_daily overlapping_stderr initial) 1) = Some FAILED
   \<and> map_option run_output (runs (exec valid_twice_daily overlapping_stderr initial) 1)
       = Some (Some [])
   \<and> map_option run_output (runs (exec valid_twice_daily overlapping_stderr initial) 2)
       = Some None"
  by (simp add: overlapping_stderr_def eval_defs finally_resume_def)

end
